theory Spec2Isabelle
  imports Main "HOL-Library.Word" "HOL-Library.Signed_Division" "HOL-Library.Monad_Syntax"
begin

unbundle bit_operations_syntax

section \<open>The character map of vcl/source/font/fontcharmap.cxx\<close>

text \<open>
  Code points (\<^verbatim>\<open>sal_UCS4\<close>) are unsigned 32-bit words and glyph ids of the glyph id
  array (\<^verbatim>\<open>sal_uInt16\<close>) are 16-bit words; their arithmetic wraps. Array indices and
  counts (\<^verbatim>\<open>int\<close> in the source) are bounded by the sizes of the arrays they index
  and are modelled as HOL integers; the division \<^verbatim>\<open>/\<close> of C++ truncates towards zero
  and is \<open>sdiv\<close>.
\<close>

type_synonym sal_UCS4 = "32 word"
type_synonym sal_uInt16 = "16 word"

subsection \<open>Data\<close>

text \<open>
  \<^verbatim>\<open>mpRangeCodes\<close> is a pointer. The source compares it with the addresses of the two
  static arrays \<^verbatim>\<open>aDefaultUnicodeRanges\<close> and \<^verbatim>\<open>aDefaultSymbolRanges\<close>
  (\<^verbatim>\<open>isDefaultMap\<close>), so the model keeps what the pointer refers to: nothing, one of
  the two static arrays, or an array allocated with \<^verbatim>\<open>new[]\<close>.
\<close>

datatype codes_ptr =
    nullptr
  | aDefaultUnicodeRanges
  | aDefaultSymbolRanges
  | Allocated "sal_UCS4 list"

fun deref :: "codes_ptr \<Rightarrow> sal_UCS4 list" where
  "deref nullptr = []"
| "deref aDefaultUnicodeRanges = [0x0020, 0xD800, 0xE000, 0xFFF0]"
| "deref aDefaultSymbolRanges = [0x0020, 0x0100, 0xF020, 0xF100]"
| "deref (Allocated xs) = xs"

record CmapResult =
  cr_mpRangeCodes :: codes_ptr
  cr_mpStartGlyphs :: "int list option"
  cr_mpGlyphIds :: "sal_uInt16 list option"
  cr_mnRangeCount :: int
  cr_mbSymbolic :: bool
  cr_mbRecoded :: bool

text \<open>The constructor \<^verbatim>\<open>CmapResult(bSymbolic, pRangeCodes, nRangeCount)\<close>.\<close>

definition CmapResult_ctor :: "bool \<Rightarrow> codes_ptr \<Rightarrow> int \<Rightarrow> CmapResult" where
  "CmapResult_ctor bSymbolic pRangeCodes nRangeCount =
     \<lparr> cr_mpRangeCodes = pRangeCodes, cr_mpStartGlyphs = None, cr_mpGlyphIds = None,
       cr_mnRangeCount = nRangeCount, cr_mbSymbolic = bSymbolic, cr_mbRecoded = False \<rparr>"

record ImplFontCharMap =
  mpRangeCodes :: codes_ptr
  mpStartGlyphs :: "int list option"
  mpGlyphIds :: "sal_uInt16 list option"
  mnRangeCount :: int
  mnCharCount :: "32 word"
  m_bSymbolic :: bool

abbreviation codes :: "ImplFontCharMap \<Rightarrow> sal_UCS4 list" where
  "codes m \<equiv> deref (mpRangeCodes m)"

text \<open>
  The ranges a loop \<^verbatim>\<open>for (i = 0; i < n; ++i) { cFirst = *(pRange++); cLast = *(pRange++); ... }\<close>
  visits: pair \<open>i\<close> is \<open>(p[2i], p[2i+1])\<close>.
\<close>

definition range_pairs :: "sal_UCS4 list \<Rightarrow> int \<Rightarrow> (sal_UCS4 \<times> sal_UCS4) list" where
  "range_pairs p n = map (\<lambda>i. (p ! (2 * i), p ! (2 * i + 1))) [0 ..< nat n]"

text \<open>
  The constructor \<^verbatim>\<open>ImplFontCharMap(const CmapResult&)\<close>: it copies the pointers and sums
  the widths of the ranges into \<^verbatim>\<open>mnCharCount\<close> (an \<^verbatim>\<open>int\<close> that takes unsigned
  differences, so a 32-bit word).
\<close>

definition ImplFontCharMap_ctor :: "CmapResult \<Rightarrow> ImplFontCharMap" where
  "ImplFontCharMap_ctor rCR =
     \<lparr> mpRangeCodes = cr_mpRangeCodes rCR,
       mpStartGlyphs = cr_mpStartGlyphs rCR,
       mpGlyphIds = cr_mpGlyphIds rCR,
       mnRangeCount = cr_mnRangeCount rCR,
       mnCharCount = fold (\<lambda>(cFirst, cLast) n. n + (cLast - cFirst))
                       (range_pairs (deref (cr_mpRangeCodes rCR)) (cr_mnRangeCount rCR)) 0,
       m_bSymbolic = cr_mbSymbolic rCR \<rparr>"

definition isDefaultMap :: "ImplFontCharMap \<Rightarrow> bool" where
  "isDefaultMap m \<longleftrightarrow>
     mpRangeCodes m = aDefaultUnicodeRanges \<or> mpRangeCodes m = aDefaultSymbolRanges"

subsection \<open>Queries\<close>

text \<open>
  \<^verbatim>\<open>findRangeIndex\<close>: the loop keeps \<^verbatim>\<open>nLower\<close>, \<^verbatim>\<open>nMid\<close> and \<^verbatim>\<open>nUpper\<close>.
\<close>

function findRangeIndex_loop :: "sal_UCS4 list \<Rightarrow> sal_UCS4 \<Rightarrow> int \<Rightarrow> int \<Rightarrow> int \<Rightarrow> int" where
  "findRangeIndex_loop p cChar nLower nMid nUpper =
     (if nLower < nUpper then
        (if cChar \<ge> p ! nat nMid
         then findRangeIndex_loop p cChar nMid ((nMid + nUpper + 1) sdiv 2) nUpper
         else findRangeIndex_loop p cChar nLower ((nLower + (nMid - 1) + 1) sdiv 2) (nMid - 1))
      else nMid)"
  by pat_completeness auto

lemma sdiv2_mid: "(lo::int) < up \<Longrightarrow> lo < (lo + up + 1) sdiv 2 \<and> (lo + up + 1) sdiv 2 \<le> up"
  unfolding signed_divide_int_def
  by (cases "0 \<le> lo + up + 1") (auto simp: sgn_if abs_if)

lemma sdiv_nonneg: "(0::int) \<le> a \<Longrightarrow> 0 < b \<Longrightarrow> a sdiv b = a div b"
  by (simp add: signed_divide_int_def sgn_if)

termination findRangeIndex_loop
proof (relation "measures [\<lambda>(p, c, lo, mid, up). if mid = (lo + up + 1) sdiv 2 then 0 else 1,
                           \<lambda>(p, c, lo, mid, up). nat (up - lo)]", goal_cases)
  case 1
  show ?case by simp
next
  case (2 p cChar nLower nMid nUpper)
  show ?case
  proof (cases "nMid = (nLower + nUpper + 1) sdiv 2")
    case True
    with 2 sdiv2_mid [of nLower nUpper] show ?thesis by auto
  next
    case False
    then show ?thesis by auto
  qed
next
  case (3 p cChar nLower nMid nUpper)
  show ?case
  proof (cases "nMid = (nLower + nUpper + 1) sdiv 2")
    case True
    with 3 sdiv2_mid [of nLower nUpper] show ?thesis by auto
  next
    case False
    then show ?thesis by auto
  qed
qed

declare findRangeIndex_loop.simps [simp del]

definition findRangeIndex :: "ImplFontCharMap \<Rightarrow> sal_UCS4 \<Rightarrow> int" where
  "findRangeIndex m cChar =
     findRangeIndex_loop (codes m) cChar 0 (mnRangeCount m) (2 * mnRangeCount m - 1)"

text \<open>
  The queries read \<^verbatim>\<open>mpRangeCodes\<close> below index \<open>2 * mnRangeCount\<close> and
  \<^verbatim>\<open>mpStartGlyphs\<close> below index \<open>mnRangeCount\<close>, as long as there is at least one
  range; the model reads them with \<open>!\<close>.

  The tail of \<^verbatim>\<open>GetGlyphIndex\<close>, from \<^verbatim>\<open>if ((nRange & 1) != 0)\<close> on. The read of
  \<^verbatim>\<open>mpGlyphIds\<close> is the one read of the queries whose index comes from the font's
  data unchecked: outside the array (or with no array) the result is \<open>None\<close>. The
  sum \<^verbatim>\<open>nGlyphIndex += nStartIndex\<close> of two \<^verbatim>\<open>int\<close>s is not wrapped: its overflow
  is undefined in the source.
\<close>

definition glyph_of_range :: "ImplFontCharMap \<Rightarrow> int list \<Rightarrow> sal_UCS4 \<Rightarrow> int \<Rightarrow> int option" where
  "glyph_of_range m pStartGlyphs cChar nRange =
     (if nRange AND 1 \<noteq> 0 then Some 0
      else
        (let nGlyphIndex = sint (cChar - codes m ! nat nRange);
             nStartIndex = pStartGlyphs ! nat (nRange sdiv 2)
         in if nStartIndex \<ge> 0 then Some (nGlyphIndex + nStartIndex)
            else (case mpGlyphIds m of
                    None \<Rightarrow> None
                  | Some ids \<Rightarrow>
                      (let k = nGlyphIndex - nStartIndex
                       in if 0 \<le> k \<and> k < int (length ids) then Some (uint (ids ! nat k))
                          else None))))"

definition GetGlyphIndex :: "ImplFontCharMap \<Rightarrow> sal_UCS4 \<Rightarrow> int option" where
  "GetGlyphIndex m cChar =
     (case mpStartGlyphs m of
        None \<Rightarrow> Some (- 1)
      | Some pStartGlyphs \<Rightarrow>
          (let nRange = findRangeIndex m cChar
           in if nRange = 0 \<and> cChar < codes m ! 0 then
                (let bSymbolic = (cChar \<le> 0xFF \<and> codes m ! 0 \<ge> 0xF000 \<and> codes m ! 1 \<le> 0xF0FF)
                 in if \<not> bSymbolic then Some 0
                    else
                      (let cChar' = cChar OR 0xF000;
                           nRange' = findRangeIndex m cChar'
                       in if nRange' = 0 \<and> cChar' < codes m ! 0 then Some 0
                          else glyph_of_range m pStartGlyphs cChar' nRange'))
              else glyph_of_range m pStartGlyphs cChar nRange))"

definition HasChar :: "ImplFontCharMap \<Rightarrow> sal_UCS4 \<Rightarrow> bool option" where
  "HasChar m cChar =
     (case mpStartGlyphs m of
        None \<Rightarrow>
          (let nRange = findRangeIndex m cChar
           in if nRange = 0 \<and> cChar < codes m ! 0 then Some False
              else Some (nRange AND 1 = 0))
      | Some _ \<Rightarrow>
          (case GetGlyphIndex m cChar of
             None \<Rightarrow> None
           | Some nGlyphIndex \<Rightarrow> Some (nGlyphIndex \<noteq> 0)))"

text \<open>
  \<^verbatim>\<open>GetIndexFromChar\<close> and \<^verbatim>\<open>GetCharFromIndex\<close> walk the ranges in order. The
  \<^verbatim>\<open>int\<close> they count in takes unsigned 32-bit differences: a 32-bit word, negative
  when its top bit is set (\<open>- 1\<close> is \<open>0xFFFFFFFF\<close>).
\<close>

fun GetIndexFromChar_loop :: "(sal_UCS4 \<times> sal_UCS4) list \<Rightarrow> sal_UCS4 \<Rightarrow> 32 word \<Rightarrow> 32 word" where
  "GetIndexFromChar_loop [] cChar nCharIndex = - 1"
| "GetIndexFromChar_loop ((cFirst, cLast) # rest) cChar nCharIndex =
     (if cChar \<ge> cLast then GetIndexFromChar_loop rest cChar (nCharIndex + (cLast - cFirst))
      else if cChar \<ge> cFirst then nCharIndex + (cChar - cFirst)
      else - 1)"

definition GetIndexFromChar :: "ImplFontCharMap \<Rightarrow> sal_UCS4 \<Rightarrow> 32 word" where
  "GetIndexFromChar m cChar =
     GetIndexFromChar_loop (range_pairs (codes m) (mnRangeCount m)) cChar 0"

fun GetCharFromIndex_loop :: "(sal_UCS4 \<times> sal_UCS4) list \<Rightarrow> 32 word \<Rightarrow> sal_UCS4 option" where
  "GetCharFromIndex_loop [] nIndex = None"
| "GetCharFromIndex_loop ((cFirst, cLast) # rest) nIndex =
     (let nIndex' = nIndex - (cLast - cFirst)
      in if nIndex' <s 0 then Some (cLast + nIndex')
         else GetCharFromIndex_loop rest nIndex')"

definition GetCharFromIndex :: "ImplFontCharMap \<Rightarrow> 32 word \<Rightarrow> sal_UCS4" where
  "GetCharFromIndex m nIndex =
     (case GetCharFromIndex_loop (range_pairs (codes m) (mnRangeCount m)) nIndex of
        Some c \<Rightarrow> c
      | None \<Rightarrow> codes m ! 0)"

subsection \<open>The default maps\<close>

text \<open>
  What \<^verbatim>\<open>ImplFontCharMap::getDefaultMap(bSymbols)\<close> constructs:
  \<^verbatim>\<open>new ImplFontCharMap(CmapResult(bSymbols, pRangeCodes, nCodesCount/2))\<close>.
\<close>

definition default_map :: "bool \<Rightarrow> ImplFontCharMap" where
  "default_map bSymbols =
     (let pRangeCodes = (if bSymbols then aDefaultSymbolRanges else aDefaultUnicodeRanges);
          nCodesCount = int (length (deref pRangeCodes))
      in ImplFontCharMap_ctor (CmapResult_ctor bSymbols pRangeCodes (nCodesCount sdiv 2)))"

subsection \<open>Well-formed range tables\<close>

text \<open>
  The range table invariant the queries rely on: \<open>2 * mnRangeCount\<close> boundaries, at
  least one range, strictly increasing.
\<close>

definition range_table_ok :: "ImplFontCharMap \<Rightarrow> bool" where
  "range_table_ok m \<longleftrightarrow>
     0 < mnRangeCount m \<and> int (length (codes m)) = 2 * mnRangeCount m \<and>
     sorted_wrt (<) (codes m)"

text \<open>\<open>cChar\<close> lies inside range \<open>i\<close>, the half-open interval \<open>[p[2i], p[2i+1])\<close>.\<close>

definition in_range :: "ImplFontCharMap \<Rightarrow> nat \<Rightarrow> sal_UCS4 \<Rightarrow> bool" where
  "in_range m i cChar \<longleftrightarrow>
     int i < mnRangeCount m \<and> codes m ! (2 * i) \<le> cChar \<and> cChar < codes m ! (2 * i + 1)"

definition covered :: "ImplFontCharMap \<Rightarrow> sal_UCS4 \<Rightarrow> bool" where
  "covered m cChar \<longleftrightarrow> (\<exists>i < nat (mnRangeCount m). in_range m i cChar)"


text \<open>
  What the binary search has established when it stops at \<open>r\<close> between the bounds
  \<open>lo\<close> and \<open>up\<close>: every boundary after \<open>r\<close> is above \<open>c\<close>, and the boundary at
  \<open>r\<close> is not, unless \<open>r\<close> is the first one.
\<close>

definition fri_post :: "sal_UCS4 list \<Rightarrow> sal_UCS4 \<Rightarrow> int \<Rightarrow> int \<Rightarrow> int \<Rightarrow> bool" where
  "fri_post p c lo up r \<longleftrightarrow>
     lo \<le> r \<and> r \<le> up \<and> (r = 0 \<or> p ! nat r \<le> c) \<and>
     (\<forall>j. r < j \<and> j < int (length p) \<longrightarrow> c < p ! nat j)"


section \<open>Parsing the cmap table\<close>

text \<open>
  \<^verbatim>\<open>ParseCMAP(pCmap, nLength, rResult)\<close> reads the table through the pointer
  \<^verbatim>\<open>pCmap\<close>. The buffer is the list of its bytes and a pointer into it is its
  offset from \<^verbatim>\<open>pCmap\<close>. A read outside the buffer is undefined behaviour in the
  source and \<open>None\<close> here, and \<open>None\<close> propagates: the parser's result is
  \<open>None\<close> exactly when it read outside the buffer.

  The parser's \<^verbatim>\<open>int\<close> offsets and counts are HOL integers. This is exact as long as
  \<^verbatim>\<open>nLength\<close> is below \<open>2^31 - 2^19\<close>: every offset the parser computes is at most
  \<^verbatim>\<open>nLength\<close> plus five 16-bit values. Where a 32-bit value of the table
  becomes an \<^verbatim>\<open>int\<close> (a subtable offset, a group count, a start glyph id) the
  model writes \<open>sint\<close>.
\<close>

type_synonym buffer = "8 word list"
type_synonym sal_Unicode = "16 word"

subsection \<open>Byte readers\<close>

definition byte_at :: "buffer \<Rightarrow> int \<Rightarrow> int option" where
  "byte_at pCmap i =
     (if 0 \<le> i \<and> i < int (length pCmap) then Some (uint (pCmap ! nat i)) else None)"

definition GetUInt :: "buffer \<Rightarrow> int \<Rightarrow> 32 word option" where
  "GetUInt pCmap p =
     do { b0 \<leftarrow> byte_at pCmap p; b1 \<leftarrow> byte_at pCmap (p + 1);
          b2 \<leftarrow> byte_at pCmap (p + 2); b3 \<leftarrow> byte_at pCmap (p + 3);
          Some (word_of_int (push_bit 24 b0 + push_bit 16 b1 + push_bit 8 b2 + b3)) }"

definition GetUShort :: "buffer \<Rightarrow> int \<Rightarrow> int option" where
  "GetUShort pCmap p =
     do { b0 \<leftarrow> byte_at pCmap p; b1 \<leftarrow> byte_at pCmap (p + 1);
          Some (push_bit 8 b0 OR b1) }"

definition GetSShort :: "buffer \<Rightarrow> int \<Rightarrow> int option" where
  "GetSShort pCmap p =
     do { b0 \<leftarrow> byte_at pCmap p; b1 \<leftarrow> byte_at pCmap (p + 1);
          Some (sint (word_of_int (push_bit 8 b0 OR b1) :: 16 word)) }"

subsection \<open>Choosing the subtable\<close>

datatype rtl_TextEncoding =
    RTL_TEXTENCODING_UNICODE
  | RTL_TEXTENCODING_SHIFT_JIS
  | RTL_TEXTENCODING_GB_18030
  | RTL_TEXTENCODING_BIG5
  | RTL_TEXTENCODING_MS_949
  | RTL_TEXTENCODING_MS_1361

text \<open>
  The \<^verbatim>\<open>switch (nPlatformEncoding)\<close>: the value of the encoding, the encoding to
  recode from, and whether the case sets \<^verbatim>\<open>rResult.mbSymbolic\<close>.
\<close>

definition encoding_value :: "int \<Rightarrow> int \<times> rtl_TextEncoding \<times> bool" where
  "encoding_value nPlatformEncoding =
     (if nPlatformEncoding = 0x000 then (20, RTL_TEXTENCODING_UNICODE, False)
      else if nPlatformEncoding = 0x001 then (21, RTL_TEXTENCODING_UNICODE, False)
      else if nPlatformEncoding = 0x002 then (22, RTL_TEXTENCODING_UNICODE, False)
      else if nPlatformEncoding = 0x003 then (23, RTL_TEXTENCODING_UNICODE, False)
      else if nPlatformEncoding = 0x004 then (24, RTL_TEXTENCODING_UNICODE, False)
      else if nPlatformEncoding = 0x100 then (22, RTL_TEXTENCODING_UNICODE, False)
      else if nPlatformEncoding = 0x103 then (23, RTL_TEXTENCODING_UNICODE, False)
      else if nPlatformEncoding = 0x300 then (5, RTL_TEXTENCODING_UNICODE, True)
      else if nPlatformEncoding = 0x301 then (28, RTL_TEXTENCODING_UNICODE, False)
      else if nPlatformEncoding = 0x30A then (29, RTL_TEXTENCODING_UNICODE, False)
      else if nPlatformEncoding = 0x302 then (11, RTL_TEXTENCODING_SHIFT_JIS, False)
      else if nPlatformEncoding = 0x303 then (12, RTL_TEXTENCODING_GB_18030, False)
      else if nPlatformEncoding = 0x304 then (11, RTL_TEXTENCODING_BIG5, False)
      else if nPlatformEncoding = 0x305 then (11, RTL_TEXTENCODING_MS_949, False)
      else if nPlatformEncoding = 0x306 then (11, RTL_TEXTENCODING_MS_1361, False)
      else (0, RTL_TEXTENCODING_UNICODE, False))"

text \<open>The variables the loop over the subtable records updates.\<close>

record selection =
  sel_eRecodeFrom :: rtl_TextEncoding
  sel_nOffset :: int
  sel_nFormat :: int
  sel_nBestVal :: int
  sel_mbSymbolic :: bool

definition selection_init :: selection where
  "selection_init =
     \<lparr> sel_eRecodeFrom = RTL_TEXTENCODING_UNICODE, sel_nOffset = 0, sel_nFormat = - 1, sel_nBestVal = 0,
       sel_mbSymbolic = False \<rparr>"

text \<open>One iteration of the loop, for the record at \<open>p\<close>.\<close>

definition select_subtable :: "buffer \<Rightarrow> int \<Rightarrow> int \<Rightarrow> selection \<Rightarrow> selection option" where
  "select_subtable pCmap nLength p s =
     do { nPlatform \<leftarrow> GetUShort pCmap p;
          nEncoding \<leftarrow> GetUShort pCmap (p + 2);
          let nPlatformEncoding = push_bit 8 nPlatform + nEncoding;
              (nValue, eTmpEncoding, bSym) = encoding_value nPlatformEncoding;
              s = (if bSym then s\<lparr>sel_mbSymbolic := True\<rparr> else s)
          in if nValue \<le> 0 then Some s
             else
               do { nTmp \<leftarrow> GetUInt pCmap (p + 4);
                    let nTmpOffset = sint nTmp
                    in if nTmpOffset > nLength - 2 \<or> nTmpOffset < 0 then Some s
                       else
                         do { nTmpFormat \<leftarrow> GetUShort pCmap nTmpOffset;
                              if nTmpFormat \<noteq> 12 \<and> nTmpFormat \<noteq> 4 then Some s
                              else
                                (let nValue = (if nTmpFormat = 12 then nValue + 3 else nValue)
                                 in if sel_nBestVal s < nValue
                                    then Some (s\<lparr>sel_nBestVal := nValue, sel_nOffset := nTmpOffset,
                                                sel_nFormat := nTmpFormat,
                                                sel_eRecodeFrom := eTmpEncoding\<rparr>)
                                    else Some s) } } }"

text \<open>
  \<^verbatim>\<open>for (p = pCmap + 4; --nSubTables >= 0; p += 8)\<close>: \<open>nSubTables\<close> iterations.
\<close>

fun select_loop :: "buffer \<Rightarrow> int \<Rightarrow> nat \<Rightarrow> int \<Rightarrow> selection \<Rightarrow> selection option" where
  "select_loop pCmap nLength 0 p s = Some s"
| "select_loop pCmap nLength (Suc n) p s =
     (case select_subtable pCmap nLength p s of
        None \<Rightarrow> None
      | Some s' \<Rightarrow> select_loop pCmap nLength n (p + 8) s')"

subsection \<open>Decoding the subtable\<close>

text \<open>
  What the two decoding loops build: the code pairs written through \<^verbatim>\<open>pCP\<close>, the
  start glyphs of the accepted ranges (a loop stops at the first segment it rejects, so
  accepted range \<open>i\<close> is segment \<open>i\<close>), and \<^verbatim>\<open>aGlyphIdArray\<close>. The entry
  \<^verbatim>\<open>pStartGlyphs[i]\<close> that format 4 writes before it rejects segment \<open>i\<close> lies
  past the final range count, where no query reads; the model drops it.
\<close>

record decoded =
  d_pCodePairs :: "sal_UCS4 list"
  d_pStartGlyphs :: "int list"
  d_aGlyphIdArray :: "sal_uInt16 list"

datatype 'a iteration = Break | Next 'a

text \<open>
  \<^verbatim>\<open>for (c = cMinChar; c <= cMaxChar; ++c, pGlyphIdPtr += 2)\<close>, with the number of
  code points left as the counter.
\<close>

fun glyph_id_loop :: "buffer \<Rightarrow> int \<Rightarrow> nat \<Rightarrow> int \<Rightarrow> sal_uInt16 list \<Rightarrow> sal_uInt16 list option" where
  "glyph_id_loop pCmap nGlyphDelta 0 pGlyphIdPtr ids = Some ids"
| "glyph_id_loop pCmap nGlyphDelta (Suc n) pGlyphIdPtr ids =
     (case GetUShort pCmap pGlyphIdPtr of
        None \<Rightarrow> None
      | Some g \<Rightarrow>
          glyph_id_loop pCmap nGlyphDelta n (pGlyphIdPtr + 2)
            (ids @ [word_of_int (g + nGlyphDelta)]))"

text \<open>The body of the format 4 loop for segment \<open>i\<close>.\<close>

definition format4_segment ::
  "buffer \<Rightarrow> int \<Rightarrow> int \<Rightarrow> int \<Rightarrow> int \<Rightarrow> int \<Rightarrow> int \<Rightarrow> decoded \<Rightarrow> decoded iteration option" where
  "format4_segment pCmap nLength pLimitBase pBeginBase pDeltaBase pOffsetBase i d =
     do { cMinChar \<leftarrow> GetUShort pCmap (pBeginBase + 2 * i);
          cMaxChar \<leftarrow> GetUShort pCmap (pLimitBase + 2 * i);
          nGlyphDelta \<leftarrow> GetSShort pCmap (pDeltaBase + 2 * i);
          nRangeOffset \<leftarrow> GetUShort pCmap (pOffsetBase + 2 * i);
          if cMinChar > cMaxChar then Some Break
          else if cMaxChar = 0xFFFF then Some Break
          else if nRangeOffset = 0 then
            Some (Next (d\<lparr>d_pStartGlyphs := d_pStartGlyphs d @ [(cMinChar + nGlyphDelta) AND 0xFFFF],
                           d_pCodePairs := d_pCodePairs d @ [word_of_int cMinChar, word_of_int cMaxChar + 1]\<rparr>))
          else
            (let nStart = - int (length (d_aGlyphIdArray d));
                 pGlyphIdPtr = pOffsetBase + 2 * i + nRangeOffset;
                 nRemainingSize = (if nLength \<ge> pGlyphIdPtr then nLength - pGlyphIdPtr else 0);
                 nMaxPossibleRecords = nRemainingSize div 2
             in if nMaxPossibleRecords = 0 then Some Break
                else
                  (let nMaxLegalChar = cMinChar + nMaxPossibleRecords - 1
                   in if cMaxChar > nMaxLegalChar then Some Break
                      else
                        do { ids \<leftarrow> glyph_id_loop pCmap nGlyphDelta (nat (cMaxChar - cMinChar + 1))
                                     pGlyphIdPtr (d_aGlyphIdArray d);
                             Some (Next (d\<lparr>d_pStartGlyphs := d_pStartGlyphs d @ [nStart],
                                            d_aGlyphIdArray := ids,
                                            d_pCodePairs := d_pCodePairs d @
                                              [word_of_int cMinChar, word_of_int cMaxChar + 1]\<rparr>)) })) }"

fun format4_loop ::
  "buffer \<Rightarrow> int \<Rightarrow> int \<Rightarrow> int \<Rightarrow> int \<Rightarrow> int \<Rightarrow> nat \<Rightarrow> int \<Rightarrow> decoded \<Rightarrow> decoded option" where
  "format4_loop pCmap nLength pLimitBase pBeginBase pDeltaBase pOffsetBase 0 i d = Some d"
| "format4_loop pCmap nLength pLimitBase pBeginBase pDeltaBase pOffsetBase (Suc n) i d =
     (case format4_segment pCmap nLength pLimitBase pBeginBase pDeltaBase pOffsetBase i d of
        None \<Rightarrow> None
      | Some Break \<Rightarrow> Some d
      | Some (Next d') \<Rightarrow>
          format4_loop pCmap nLength pLimitBase pBeginBase pDeltaBase pOffsetBase n (i + 1) d')"

text \<open>
  The number of segments the format 4 loop runs over: the declared
  \<^verbatim>\<open>nSegCountX2/2 - 1\<close> (the last segment of a format 4 table is its terminator),
  not below 0, and no more than the range offsets the buffer has room for.
\<close>

definition format4_range_count :: "int \<Rightarrow> int \<Rightarrow> int \<Rightarrow> int" where
  "format4_range_count nLength nOffset nSegCountX2 =
     (let nRangeCount = nSegCountX2 sdiv 2 - 1;
          nRangeCount = (if nRangeCount < 0 then 0 else nRangeCount);
          pLimitBase = nOffset + 14;
          pBeginBase = pLimitBase + nSegCountX2 + 2;
          pDeltaBase = pBeginBase + nSegCountX2;
          pOffsetBase = pDeltaBase + nSegCountX2;
          nOffsetBaseStart = pOffsetBase;
          nRemainingLen = nLength - nOffsetBaseStart;
          nMaxPossibleRangeOffsets = nRemainingLen sdiv 2
      in if nRangeCount > nMaxPossibleRangeOffsets then max 0 nMaxPossibleRangeOffsets
         else nRangeCount)"

definition decoded_init :: decoded where
  "decoded_init = \<lparr> d_pCodePairs = [], d_pStartGlyphs = [], d_aGlyphIdArray = [0] \<rparr>"

definition parse_format4 :: "buffer \<Rightarrow> int \<Rightarrow> int \<Rightarrow> decoded option" where
  "parse_format4 pCmap nLength nOffset =
     do { nSegCountX2 \<leftarrow> GetUShort pCmap (nOffset + 6);
          let nRangeCount = format4_range_count nLength nOffset nSegCountX2;
              pLimitBase = nOffset + 14;
              pBeginBase = pLimitBase + nSegCountX2 + 2;
              pDeltaBase = pBeginBase + nSegCountX2;
              pOffsetBase = pDeltaBase + nSegCountX2
          in format4_loop pCmap nLength pLimitBase pBeginBase pDeltaBase pOffsetBase
               (nat nRangeCount) 0 decoded_init }"

text \<open>Format 12: the group at \<open>pGroup\<close>.\<close>

definition format12_group :: "buffer \<Rightarrow> int \<Rightarrow> decoded \<Rightarrow> decoded iteration option" where
  "format12_group pCmap pGroup d =
     do { cMinChar \<leftarrow> GetUInt pCmap (pGroup + 0);
          cMaxChar \<leftarrow> GetUInt pCmap (pGroup + 4);
          nGlyph \<leftarrow> GetUInt pCmap (pGroup + 8);
          let nGlyphId = sint nGlyph
          in if cMinChar > cMaxChar then Some Break
             else Some (Next (d\<lparr>d_pCodePairs := d_pCodePairs d @ [cMinChar, cMaxChar + 1],
                                d_pStartGlyphs := d_pStartGlyphs d @ [nGlyphId]\<rparr>)) }"

fun format12_loop :: "buffer \<Rightarrow> nat \<Rightarrow> int \<Rightarrow> decoded \<Rightarrow> decoded option" where
  "format12_loop pCmap 0 pGroup d = Some d"
| "format12_loop pCmap (Suc n) pGroup d =
     (case format12_group pCmap pGroup d of
        None \<Rightarrow> None
      | Some Break \<Rightarrow> Some d
      | Some (Next d') \<Rightarrow> format12_loop pCmap n (pGroup + 12) d')"

text \<open>
  The number of groups the format 12 loop runs over: the declared count as an
  \<^verbatim>\<open>int\<close>, not below 0, and no more than the groups the buffer has room for.
\<close>

definition format12_range_count :: "int \<Rightarrow> int \<Rightarrow> 32 word \<Rightarrow> int" where
  "format12_range_count nLength nOffset nGroups =
     (let nRangeCount = sint nGroups;
          nRangeCount = (if nRangeCount < 0 then 0 else nRangeCount);
          nGroupOffset = nOffset + 16;
          nRemainingLen = nLength - nGroupOffset;
          nMaxPossiblePairs = nRemainingLen sdiv 12
      in if nRangeCount > nMaxPossiblePairs then max 0 nMaxPossiblePairs else nRangeCount)"

definition parse_format12 :: "buffer \<Rightarrow> int \<Rightarrow> int \<Rightarrow> decoded option" where
  "parse_format12 pCmap nLength nOffset =
     do { nGroups \<leftarrow> GetUInt pCmap (nOffset + 12);
          let nRangeCount = format12_range_count nLength nOffset nGroups;
              nGroupOffset = nOffset + 16
          in format12_loop pCmap (nat nRangeCount) nGroupOffset decoded_init }"

text \<open>
  \<^verbatim>\<open>if ((nFormat == 4) && ((nOffset+16) < nLength)) ... else if ((nFormat == 12) && ...)\<close>.
  With neither, nothing is decoded and the range count stays 0.
\<close>

definition parse_best_subtable :: "buffer \<Rightarrow> int \<Rightarrow> selection \<Rightarrow> decoded option" where
  "parse_best_subtable pCmap nLength s =
     (if sel_nFormat s = 4 \<and> sel_nOffset s + 16 < nLength then parse_format4 pCmap nLength (sel_nOffset s)
      else if sel_nFormat s = 12 \<and> sel_nOffset s + 16 < nLength then parse_format12 pCmap nLength (sel_nOffset s)
      else Some decoded_init)"

text \<open>\<^verbatim>\<open>nRangeCount = (pCP - pCodePairs) / 2\<close>.\<close>

definition decoded_range_count :: "decoded \<Rightarrow> int" where
  "decoded_range_count d = int (length (d_pCodePairs d)) sdiv 2"

subsection \<open>Recoding to Unicode\<close>

text \<open>
  The text converter of \<^verbatim>\<open>rtl/textcvt.h\<close> is a library outside this file. The model
  takes it as a parameter: for an encoding, nothing when the converter or its context
  cannot be created, or the initial context and the conversion function
  (\<^verbatim>\<open>rtl_convertTextToUnicode\<close>: the context, the source bytes and the capacity of
  the destination give the characters written and the context afterwards).
\<close>

record 'ctx text_converter =
  aCvtContext :: 'ctx
  rtl_convertTextToUnicode :: "'ctx \<Rightarrow> 8 word list \<Rightarrow> nat \<Rightarrow> sal_Unicode list \<times> 'ctx"

definition NINSIZE :: nat where "NINSIZE = 64"
definition NOUTSIZE :: nat where "NOUTSIZE = 64"

text \<open>\<^verbatim>\<open>o3tl::sorted_vector::insert\<close>: sorted, without duplicates.\<close>

definition sorted_vector_insert :: "sal_UCS4 \<Rightarrow> sal_UCS4 list \<Rightarrow> sal_UCS4 list" where
  "sorted_vector_insert x xs = (if x \<in> set xs then xs else insort x xs)"

text \<open>
  \<^verbatim>\<open>for (j = 0; (cMin < cEnd) && (j < NINSIZE); ++cMin, ++j)\<close>, with the iterations left
  as the counter: the bytes pushed to \<^verbatim>\<open>cCharsInp\<close> and \<^verbatim>\<open>cMin\<close> afterwards.
\<close>

fun recode_chunk :: "nat \<Rightarrow> sal_UCS4 \<Rightarrow> sal_UCS4 \<Rightarrow> 8 word list \<Rightarrow> sal_UCS4 \<times> 8 word list" where
  "recode_chunk 0 cMin cEnd cCharsInp = (cMin, cCharsInp)"
| "recode_chunk (Suc k) cMin cEnd cCharsInp =
     (if cMin < cEnd then
        recode_chunk k (cMin + 1) cEnd
          (cCharsInp
           @ (if cMin \<ge> 0x0100 then [ucast (drop_bit 8 cMin)] else [])
           @ (if cMin \<ge> 0x0100 \<or> cMin < 0x00A0 then [ucast cMin] else []))
      else (cMin, cCharsInp))"

lemma word_succ_between: "(a :: 32 word) < b \<Longrightarrow> a < a + 1 \<and> a + 1 \<le> b"
  by (meson dual_order.refl inc_le interval_class.inc_less_eq_imp_less)

lemma recode_chunk_bounds:
  "cMin \<le> cEnd \<Longrightarrow>
   cMin \<le> fst (recode_chunk k cMin cEnd inp) \<and> fst (recode_chunk k cMin cEnd inp) \<le> cEnd"
proof (induction k arbitrary: cMin inp)
  case 0
  then show ?case by simp
next
  case (Suc k)
  show ?case
  proof (cases "cMin < cEnd")
    case True
    from word_succ_between [OF True] have s: "cMin < cMin + 1" "cMin + 1 \<le> cEnd" by simp_all
    obtain inp' where e: "recode_chunk (Suc k) cMin cEnd inp = recode_chunk k (cMin + 1) cEnd inp'"
      using True by simp
    from Suc.IH [OF s(2), of inp'] s(1) show ?thesis
      unfolding e by (auto intro: order.trans less_imp_le)
  next
    case False
    with Suc.prems show ?thesis by simp
  qed
qed

lemma recode_chunk_progress:
  assumes "cMin < cEnd"
  shows "cMin < fst (recode_chunk (Suc k) cMin cEnd inp)"
    and "fst (recode_chunk (Suc k) cMin cEnd inp) \<le> cEnd"
proof -
  from word_succ_between [OF assms] have s: "cMin < cMin + 1" "cMin + 1 \<le> cEnd" by simp_all
  obtain inp' where e: "recode_chunk (Suc k) cMin cEnd inp = recode_chunk k (cMin + 1) cEnd inp'"
    using assms by simp
  from recode_chunk_bounds [OF s(2), of k inp'] s(1)
  show "cMin < fst (recode_chunk (Suc k) cMin cEnd inp)"
    and "fst (recode_chunk (Suc k) cMin cEnd inp) \<le> cEnd"
    unfolding e by (auto intro: order.strict_trans2)
qed

text \<open>
  \<^verbatim>\<open>while (cMin < cEnd && cMin <= SAL_MAX_UINT16)\<close>: a chunk of at most
  \<^verbatim>\<open>NINSIZE\<close> code points is converted and the characters that come out are
  inserted into \<^verbatim>\<open>aSupportedCodePoints\<close>. The model keeps the first
  \<^verbatim>\<open>NOUTSIZE\<close> characters the converter returns: its destination has that capacity.
\<close>

function recode_range ::
  "('ctx \<Rightarrow> 8 word list \<Rightarrow> nat \<Rightarrow> sal_Unicode list \<times> 'ctx) \<Rightarrow> 'ctx \<Rightarrow> sal_UCS4 \<Rightarrow> sal_UCS4 \<Rightarrow>
   sal_UCS4 list \<Rightarrow> 'ctx \<times> sal_UCS4 list" where
  "recode_range convert ctx cMin cEnd aSupportedCodePoints =
     (if cMin < cEnd \<and> cMin \<le> 0xFFFF then
        (let chunk = recode_chunk NINSIZE cMin cEnd [];
             out = convert ctx (snd chunk) NOUTSIZE
         in recode_range convert (snd out) (fst chunk) cEnd
              (fold (\<lambda>c. sorted_vector_insert (ucast c)) (take NOUTSIZE (fst out))
                 aSupportedCodePoints))
      else (ctx, aSupportedCodePoints))"
  by pat_completeness auto

termination recode_range
proof (relation "measure (\<lambda>(convert, ctx, cMin, cEnd, pts). unat cEnd - unat cMin)", goal_cases)
  case 1
  show ?case by simp
next
  case (2 convert ctx cMin cEnd pts chunk out)
  then have lt: "cMin < cEnd" by simp
  have "NINSIZE = Suc 63" by (simp add: NINSIZE_def)
  with recode_chunk_progress [OF lt, of 63 "[]"] 2(2)
  have "cMin < fst chunk" "fst chunk \<le> cEnd" by simp_all
  then show ?case by (simp add: word_less_nat_alt word_le_nat_alt)
qed

declare recode_range.simps [simp del]

text \<open>The loop over the ranges decoded so far, \<^verbatim>\<open>for (i = 0; i < nRangeCount; ++i)\<close>.\<close>

fun recode_ranges ::
  "('ctx \<Rightarrow> 8 word list \<Rightarrow> nat \<Rightarrow> sal_Unicode list \<times> 'ctx) \<Rightarrow> 'ctx \<Rightarrow>
   (sal_UCS4 \<times> sal_UCS4) list \<Rightarrow> sal_UCS4 list \<Rightarrow> sal_UCS4 list" where
  "recode_ranges convert ctx [] aSupportedCodePoints = aSupportedCodePoints"
| "recode_ranges convert ctx ((cMin, cEnd) # rest) aSupportedCodePoints =
     (let r = recode_range convert ctx cMin cEnd aSupportedCodePoints
      in recode_ranges convert (fst r) rest (snd r))"

text \<open>
  \<^verbatim>\<open>for (auto const& supportedPoint : aSupportedCodePoints)\<close>: a point that is not the
  end of the last range opens a new range; the end of the last range becomes the point
  plus one.
\<close>

definition add_supported_point :: "sal_UCS4 \<Rightarrow> sal_UCS4 list \<Rightarrow> sal_UCS4 list" where
  "add_supported_point supportedPoint aSupportedRanges =
     (let rs = (if aSupportedRanges = [] \<or> last aSupportedRanges \<noteq> supportedPoint
                then aSupportedRanges @ [supportedPoint, 0] else aSupportedRanges)
      in butlast rs @ [supportedPoint + 1])"

definition supported_ranges :: "sal_UCS4 list \<Rightarrow> sal_UCS4 list" where
  "supported_ranges aSupportedCodePoints = fold add_supported_point aSupportedCodePoints []"

subsection \<open>ParseCMAP\<close>

text \<open>The fields of \<^verbatim>\<open>rResult\<close> as the first six assignments leave them.\<close>

definition CmapResult_reset :: CmapResult where
  "CmapResult_reset =
     \<lparr> cr_mpRangeCodes = nullptr, cr_mpStartGlyphs = None, cr_mpGlyphIds = None,
       cr_mnRangeCount = 0, cr_mbSymbolic = False, cr_mbRecoded = False \<rparr>"

text \<open>
  From \<^verbatim>\<open>if (nRangeCount <= 0)\<close> to the end: the return value and \<^verbatim>\<open>rResult\<close>.
  The code pairs of the result are the pairs written through \<^verbatim>\<open>pCP\<close>; the array
  allocated for them may be longer, but \<^verbatim>\<open>mnRangeCount\<close> counts the written pairs.
\<close>

definition parse_result ::
  "(rtl_TextEncoding \<Rightarrow> 'ctx text_converter option) \<Rightarrow> selection \<Rightarrow> decoded \<Rightarrow> bool \<times> CmapResult" where
  "parse_result rtl_createTextToUnicodeConverter s d =
     (let nRangeCount = decoded_range_count d;
          rResult = CmapResult_reset\<lparr>cr_mbSymbolic := sel_mbSymbolic s\<rparr>
      in if nRangeCount \<le> 0 then
           (if cr_mbSymbolic rResult
            then (True, rResult\<lparr>cr_mpRangeCodes := Allocated [0x0020, 0x0100, 0xF020, 0xF100],
                                cr_mnRangeCount := 2\<rparr>)
            else (False, rResult))
         else
           (let rResult = rResult\<lparr>cr_mbRecoded := (sel_eRecodeFrom s \<noteq> RTL_TEXTENCODING_UNICODE)\<rparr>
            in case (if cr_mbRecoded rResult
                     then rtl_createTextToUnicodeConverter (sel_eRecodeFrom s) else None) of
                 Some aConverter \<Rightarrow>
                   (let aSupportedCodePoints =
                          recode_ranges (rtl_convertTextToUnicode aConverter) (aCvtContext aConverter)
                            (range_pairs (d_pCodePairs d) nRangeCount) [];
                        aSupportedRanges = supported_ranges aSupportedCodePoints;
                        nRangeCount = int (length aSupportedRanges) div 2
                    in if nRangeCount \<le> 0 then (False, rResult)
                       else (True, rResult\<lparr>cr_mpRangeCodes := Allocated aSupportedRanges,
                                            cr_mpStartGlyphs := None,
                                            cr_mnRangeCount := nRangeCount,
                                            cr_mpGlyphIds := None\<rparr>))
               | None \<Rightarrow>
                   (True, rResult\<lparr>cr_mpRangeCodes := Allocated (d_pCodePairs d),
                                  cr_mpStartGlyphs := Some (d_pStartGlyphs d),
                                  cr_mnRangeCount := nRangeCount,
                                  cr_mpGlyphIds := (if d_aGlyphIdArray d \<noteq> []
                                                    then Some (d_aGlyphIdArray d) else None)\<rparr>)))"

text \<open>
  After the header: choose the subtable, decode it, build the result.
\<close>

definition parse_subtables ::
  "(rtl_TextEncoding \<Rightarrow> 'ctx text_converter option) \<Rightarrow> buffer \<Rightarrow> int \<Rightarrow> int \<Rightarrow>
   (bool \<times> CmapResult) option" where
  "parse_subtables rtl_createTextToUnicodeConverter pCmap nLength nSubTables =
     do { s \<leftarrow> select_loop pCmap nLength (nat nSubTables) 4 selection_init;
          d \<leftarrow> parse_best_subtable pCmap nLength s;
          Some (parse_result rtl_createTextToUnicodeConverter s d) }"

definition ParseCMAP ::
  "(rtl_TextEncoding \<Rightarrow> 'ctx text_converter option) \<Rightarrow> buffer option \<Rightarrow> int \<Rightarrow>
   (bool \<times> CmapResult) option" where
  "ParseCMAP rtl_createTextToUnicodeConverter pCmap nLength =
     (case pCmap of
        None \<Rightarrow> Some (False, CmapResult_reset)
      | Some buf \<Rightarrow>
          if nLength < 24 then Some (False, CmapResult_reset)
          else
            do { nVersion \<leftarrow> GetUShort buf 0;
                 if nVersion \<noteq> 0x0000 then Some (False, CmapResult_reset)
                 else
                   do { nSubTables \<leftarrow> GetUShort buf 2;
                        if nSubTables \<le> 0 \<or> nSubTables > (nLength - 24) sdiv 8
                        then Some (False, CmapResult_reset)
                        else parse_subtables rtl_createTextToUnicodeConverter buf nLength nSubTables } })"


subsection \<open>Further queries and measures\<close>

definition GetFirstChar :: "ImplFontCharMap \<Rightarrow> sal_UCS4" where
  "GetFirstChar m = codes m ! 0"

text \<open>The number of characters a list of ranges covers, as a natural number.\<close>

definition char_total :: "(sal_UCS4 \<times> sal_UCS4) list \<Rightarrow> nat" where
  "char_total ps = sum_list (map (\<lambda>(cFirst, cLast). unat (cLast - cFirst)) ps)"

text \<open>A flat boundary sequence cut into its pairs.\<close>

fun pairs_of :: "'a list \<Rightarrow> ('a \<times> 'a) list" where
  "pairs_of (a # b # xs) = (a, b) # pairs_of xs"
| "pairs_of _ = []"

section \<open>The default map and its handles\<close>

text \<open>
  \<^verbatim>\<open>ImplFontCharMap::getDefaultMap\<close> allocates an object with \<^verbatim>\<open>new\<close> and stores a
  reference to it in the static \<^verbatim>\<open>g_pDefaultImplFontCharMap\<close>;
  \<^verbatim>\<open>FontCharMap::GetDefaultMap\<close> allocates a \<^verbatim>\<open>FontCharMap\<close> that holds this
  reference. Which object a handle refers to is a matter of addresses, so the model has
  a store: the \<^verbatim>\<open>ImplFontCharMap\<close> objects allocated so far (the address of an object
  is its position), the static reference (null at first), and the \<^verbatim>\<open>FontCharMap\<close>
  objects allocated so far, each with its \<^verbatim>\<open>mpImplFontCharMap\<close>. Nothing is freed
  in the model: an object that a handle still refers to is never freed in the source.
\<close>

type_synonym address = nat

record store =
  impl_objects :: "ImplFontCharMap list"
  g_pDefaultImplFontCharMap :: "address option"
  font_char_maps :: "address list"

definition store_init :: store where
  "store_init = \<lparr> impl_objects = [], g_pDefaultImplFontCharMap = None, font_char_maps = [] \<rparr>"

definition getDefaultMap :: "bool \<Rightarrow> store \<Rightarrow> address \<times> store" where
  "getDefaultMap bSymbols h =
     (let pNew = length (impl_objects h);
          h = h\<lparr>impl_objects := impl_objects h @ [default_map bSymbols]\<rparr>;
          h = h\<lparr>g_pDefaultImplFontCharMap := Some pNew\<rparr>
      in (the (g_pDefaultImplFontCharMap h), h))"

definition GetDefaultMap :: "bool \<Rightarrow> store \<Rightarrow> nat \<times> store" where
  "GetDefaultMap bSymbol h =
     (let r = getDefaultMap bSymbol h;
          xFontCharMap = length (font_char_maps (snd r))
      in (xFontCharMap, (snd r)\<lparr>font_char_maps := font_char_maps (snd r) @ [fst r]\<rparr>))"

text \<open>The address of the map a handle refers to, and the map at an address.\<close>

definition mpImplFontCharMap :: "store \<Rightarrow> nat \<Rightarrow> address" where
  "mpImplFontCharMap h xFontCharMap = font_char_maps h ! xFontCharMap"

definition impl_at :: "store \<Rightarrow> address \<Rightarrow> ImplFontCharMap" where
  "impl_at h p = impl_objects h ! p"

text \<open>
  A caller that requests the default map several times: one call of
  \<^verbatim>\<open>FontCharMap::GetDefaultMap\<close> for each kind of the list, in this order, each on the
  store the call before left. The result has the handles in the order of the calls.
\<close>

fun GetDefaultMap_requests :: "bool list \<Rightarrow> store \<Rightarrow> nat list \<times> store" where
  "GetDefaultMap_requests [] h = ([], h)"
| "GetDefaultMap_requests (bSymbol # bs) h =
     (let r = GetDefaultMap bSymbol h;
          rs = GetDefaultMap_requests bs (snd r)
      in (fst r # fst rs, snd rs))"

section \<open>Example tables\<close>

text \<open>
  Each table has the header (version 0, one subtable), one subtable record (platform,
  encoding, offset 12) and the subtable. The format 4 subtables have, after their 14
  header bytes, the end codes, a pad, the start codes, the deltas and the range offsets
  of their segments. \<open>format4_table\<close> declares two segments (\<open>segCountX2 = 4\<close>): the
  segment \<open>0x41..0x41\<close> with delta 0 and range offset 0, and a last segment whose eight
  bytes are parameters. \<open>single_segment_table\<close> declares that one segment only.
  \<open>symbol_font_table\<close> is a Windows Symbol table (platform 3, encoding 0) with the
  segment \<open>0xF020..0xF0FE\<close>, first glyph 3; \<open>pua_font_table\<close> a Windows UCS-2 table
  (platform 3, encoding 1) with the segment \<open>0xF020..0xF02F\<close>, first glyph 5;
  \<open>unordered_table\<close> has the segments \<open>0x50..0x50\<close> and \<open>0x41..0x41\<close> in this
  order; \<open>symbol_only_table\<close> and \<open>unusable_table\<close> have a subtable of format 0
  under the Windows Symbol and the Windows UCS-2 encoding.
\<close>

text \<open>A platform without text converters: no converter can be created.\<close>

definition no_converter :: "rtl_TextEncoding \<Rightarrow> unit text_converter option" where
  "no_converter e = None"

definition format4_table :: "8 word \<Rightarrow> 8 word \<Rightarrow> 8 word \<Rightarrow> 8 word \<Rightarrow> 8 word \<Rightarrow> 8 word \<Rightarrow> 8 word \<Rightarrow> 8 word \<Rightarrow> buffer" where
  "format4_table e0 e1 s0 s1 d0 d1 o0 o1 =
     [0x00, 0x00, 0x00, 0x01,
      0x00, 0x03, 0x00, 0x01, 0x00, 0x00, 0x00, 0x0C,
      0x00, 0x04, 0x00, 0x20, 0x00, 0x00, 0x00, 0x04, 0x00, 0x04, 0x00, 0x01, 0x00, 0x00,
      0x00, 0x41, e0, e1,
      0x00, 0x00,
      0x00, 0x41, s0, s1,
      0x00, 0x00, d0, d1,
      0x00, 0x00, o0, o1]"

definition single_segment_table :: buffer where
  "single_segment_table =
     [0x00, 0x00, 0x00, 0x01,
      0x00, 0x03, 0x00, 0x01, 0x00, 0x00, 0x00, 0x0C,
      0x00, 0x04, 0x00, 0x18, 0x00, 0x00, 0x00, 0x02, 0x00, 0x02, 0x00, 0x00, 0x00, 0x00,
      0x00, 0x41,
      0x00, 0x00,
      0x00, 0x41,
      0x00, 0x00,
      0x00, 0x00]"


definition pua_font_table :: buffer where
  "pua_font_table =
     [0x00, 0x00, 0x00, 0x01,
      0x00, 0x03, 0x00, 0x01, 0x00, 0x00, 0x00, 0x0C,
      0x00, 0x04, 0x00, 0x20, 0x00, 0x00, 0x00, 0x04, 0x00, 0x04, 0x00, 0x01, 0x00, 0x00,
      0xF0, 0x2F, 0xFF, 0xFF,
      0x00, 0x00,
      0xF0, 0x20, 0xFF, 0xFF,
      0x0F, 0xE5, 0x00, 0x01,
      0x00, 0x00, 0x00, 0x00]"

definition unordered_table :: buffer where
  "unordered_table =
     [0x00, 0x00, 0x00, 0x01,
      0x00, 0x03, 0x00, 0x01, 0x00, 0x00, 0x00, 0x0C,
      0x00, 0x04, 0x00, 0x28, 0x00, 0x00, 0x00, 0x06, 0x00, 0x04, 0x00, 0x01, 0x00, 0x02,
      0x00, 0x50, 0x00, 0x41, 0xFF, 0xFF,
      0x00, 0x00,
      0x00, 0x50, 0x00, 0x41, 0xFF, 0xFF,
      0x00, 0x00, 0x00, 0x00, 0x00, 0x01,
      0x00, 0x00, 0x00, 0x00, 0x00, 0x00]"

definition symbol_only_table :: buffer where
  "symbol_only_table =
     [0x00, 0x00, 0x00, 0x01,
      0x00, 0x03, 0x00, 0x00, 0x00, 0x00, 0x00, 0x0C,
      0x00, 0x00, 0x00, 0x14, 0x00, 0x00, 0x00, 0x00, 0x00, 0x00, 0x00, 0x00, 0x00, 0x00,
      0x00, 0x00, 0x00, 0x00, 0x00, 0x00]"

definition unusable_table :: buffer where
  "unusable_table =
     [0x00, 0x00, 0x00, 0x01,
      0x00, 0x03, 0x00, 0x01, 0x00, 0x00, 0x00, 0x0C,
      0x00, 0x00, 0x00, 0x14, 0x00, 0x00, 0x00, 0x00, 0x00, 0x00, 0x00, 0x00, 0x00, 0x00,
      0x00, 0x00, 0x00, 0x00, 0x00, 0x00]"



text \<open>What \<^verbatim>\<open>ParseCMAP\<close> returns for \<open>symbol_font_table\<close> and \<open>pua_font_table\<close>.\<close>

definition symbol_font_cmap :: CmapResult where
  "symbol_font_cmap =
     \<lparr> cr_mpRangeCodes = Allocated [0xF020, 0xF0FF], cr_mpStartGlyphs = Some [3],
       cr_mpGlyphIds = Some [0], cr_mnRangeCount = 1, cr_mbSymbolic = True, cr_mbRecoded = False \<rparr>"

definition pua_font_cmap :: CmapResult where
  "pua_font_cmap =
     \<lparr> cr_mpRangeCodes = Allocated [0xF020, 0xF030], cr_mpStartGlyphs = Some [5],
       cr_mpGlyphIds = Some [0], cr_mnRangeCount = 1, cr_mbSymbolic = False, cr_mbRecoded = False \<rparr>"

text \<open>A map without glyph data that covers more than \<open>2^31\<close> characters.\<close>

definition wide_cmap :: CmapResult where
  "wide_cmap = CmapResult_ctor False (Allocated [0, 1, 2, 0x80000003]) 2"

text \<open>The result of the symbolic fallback.\<close>

definition symbol_fallback_cmap :: CmapResult where
  "symbol_fallback_cmap =
     \<lparr> cr_mpRangeCodes = Allocated [0x0020, 0x0100, 0xF020, 0xF100], cr_mpStartGlyphs = None,
       cr_mpGlyphIds = None, cr_mnRangeCount = 2, cr_mbSymbolic = True, cr_mbRecoded = False \<rparr>"

text \<open>
  A converter for every encoding that passes each source byte on as one character, and
  the state the parser is in when a Shift-JIS subtable with the range \<open>[0x41, 0x42)\<close>
  has been decoded.
\<close>

definition bytewise_converter :: "rtl_TextEncoding \<Rightarrow> unit text_converter option" where
  "bytewise_converter e =
     Some \<lparr> aCvtContext = (),
            rtl_convertTextToUnicode = (\<lambda>ctx bytes n. (map ucast (take n bytes), ())) \<rparr>"

definition shift_jis_selection :: selection where
  "shift_jis_selection =
     \<lparr> sel_eRecodeFrom = RTL_TEXTENCODING_SHIFT_JIS, sel_nOffset = 12, sel_nFormat = 4,
       sel_nBestVal = 11, sel_mbSymbolic = False \<rparr>"

definition one_range_decoded :: decoded where
  "one_range_decoded = \<lparr> d_pCodePairs = [0x41, 0x42], d_pStartGlyphs = [0x41], d_aGlyphIdArray = [0] \<rparr>"

text \<open>
  Two tables with a bad header: version 1, and a table of 32 bytes that declares two
  subtables, one more than \<open>(32 - 24) / 8\<close>. The result of parsing \<open>format4_table\<close>.
\<close>

definition bad_version_table :: buffer where
  "bad_version_table = [0x00, 0x01, 0x00, 0x01] @ replicate 28 0x00"

definition overdeclared_table :: buffer where
  "overdeclared_table = [0x00, 0x00, 0x00, 0x02] @ replicate 28 0x00"

definition format4_cmap :: CmapResult where
  "format4_cmap =
     \<lparr> cr_mpRangeCodes = Allocated [0x41, 0x42], cr_mpStartGlyphs = Some [0x41],
       cr_mpGlyphIds = Some [0], cr_mnRangeCount = 1, cr_mbSymbolic = False, cr_mbRecoded = False \<rparr>"

text \<open>
  \<open>shift_jis_table\<close> is \<open>format4_table\<close> under the Windows Shift-JIS encoding
  (platform 3, encoding 2). \<open>skipped_subtable_table\<close> has two subtable records: a
  Windows UCS-4 record whose offset is \<open>0xFFFFFFFF\<close>, and a Windows UCS-2 record for
  the format 4 subtable of \<open>format4_table\<close>. \<open>format12_table\<close> has a format 12
  subtable with the two groups \<open>(0x1F600, 0x1F600, 500)\<close> and \<open>(0x50, 0x41, 1)\<close>,
  the second with its start after its end.
\<close>

definition shift_jis_table :: buffer where
  "shift_jis_table =
     [0x00, 0x00, 0x00, 0x01,
      0x00, 0x03, 0x00, 0x02, 0x00, 0x00, 0x00, 0x0C,
      0x00, 0x04, 0x00, 0x20, 0x00, 0x00, 0x00, 0x04, 0x00, 0x04, 0x00, 0x01, 0x00, 0x00,
      0x00, 0x41, 0xFF, 0xFF,
      0x00, 0x00,
      0x00, 0x41, 0xFF, 0xFF,
      0x00, 0x00, 0x00, 0x01,
      0x00, 0x00, 0x00, 0x00]"

definition skipped_subtable_table :: buffer where
  "skipped_subtable_table =
     [0x00, 0x00, 0x00, 0x02,
      0x00, 0x03, 0x00, 0x0A, 0xFF, 0xFF, 0xFF, 0xFF,
      0x00, 0x03, 0x00, 0x01, 0x00, 0x00, 0x00, 0x14,
      0x00, 0x04, 0x00, 0x20, 0x00, 0x00, 0x00, 0x04, 0x00, 0x04, 0x00, 0x01, 0x00, 0x00,
      0x00, 0x41, 0xFF, 0xFF,
      0x00, 0x00,
      0x00, 0x41, 0xFF, 0xFF,
      0x00, 0x00, 0x00, 0x01,
      0x00, 0x00, 0x00, 0x00]"

definition format12_table :: buffer where
  "format12_table =
     [0x00, 0x00, 0x00, 0x01,
      0x00, 0x03, 0x00, 0x0A, 0x00, 0x00, 0x00, 0x0C,
      0x00, 0x0C, 0x00, 0x00, 0x00, 0x00, 0x00, 0x28, 0x00, 0x00, 0x00, 0x00,
      0x00, 0x00, 0x00, 0x02,
      0x00, 0x01, 0xF6, 0x00, 0x00, 0x01, 0xF6, 0x00, 0x00, 0x00, 0x01, 0xF4,
      0x00, 0x00, 0x00, 0x50, 0x00, 0x00, 0x00, 0x41, 0x00, 0x00, 0x00, 0x01]"

text \<open>
  \<open>truncated_segments_table\<close> has a format 4 subtable that declares four segments
  (\<open>segCountX2 = 8\<close>): \<open>0x20..0x21\<close>, a segment whose start \<open>0x50\<close> is after its end
  \<open>0x41\<close>, \<open>0x60..0x60\<close>, and the last segment \<open>0xFFFF\<close>.
  \<open>truncated_winner_table\<close>, of 54 bytes, has two subtable records: a Windows UCS-2
  record for the format 4 subtable of \<open>format4_table\<close>, at offset 20, and a Windows
  UCS-4 record with the offset 52, where the last two bytes of the table are the format
  number 12. \<open>indirect_glyph_table\<close> has the format 4 segment \<open>0x41..0x42\<close> with the
  range offset 4, which leads to the glyph ids \<open>0x10\<close> and \<open>0x11\<close> in the last four
  bytes of the table.
\<close>

definition truncated_segments_table :: buffer where
  "truncated_segments_table =
     [0x00, 0x00, 0x00, 0x01,
      0x00, 0x03, 0x00, 0x01, 0x00, 0x00, 0x00, 0x0C,
      0x00, 0x04, 0x00, 0x30, 0x00, 0x00, 0x00, 0x08, 0x00, 0x08, 0x00, 0x02, 0x00, 0x00,
      0x00, 0x21, 0x00, 0x41, 0x00, 0x60, 0xFF, 0xFF,
      0x00, 0x00,
      0x00, 0x20, 0x00, 0x50, 0x00, 0x60, 0xFF, 0xFF,
      0x00, 0x00, 0x00, 0x00, 0x00, 0x00, 0x00, 0x01,
      0x00, 0x00, 0x00, 0x00, 0x00, 0x00, 0x00, 0x00]"

definition truncated_winner_table :: buffer where
  "truncated_winner_table =
     [0x00, 0x00, 0x00, 0x02,
      0x00, 0x03, 0x00, 0x01, 0x00, 0x00, 0x00, 0x14,
      0x00, 0x03, 0x00, 0x0A, 0x00, 0x00, 0x00, 0x34,
      0x00, 0x04, 0x00, 0x20, 0x00, 0x00, 0x00, 0x04, 0x00, 0x04, 0x00, 0x01, 0x00, 0x00,
      0x00, 0x41, 0xFF, 0xFF,
      0x00, 0x00,
      0x00, 0x41, 0xFF, 0xFF,
      0x00, 0x00, 0x00, 0x01,
      0x00, 0x00, 0x00, 0x00,
      0x00, 0x0C]"

definition indirect_glyph_table :: buffer where
  "indirect_glyph_table =
     [0x00, 0x00, 0x00, 0x01,
      0x00, 0x03, 0x00, 0x01, 0x00, 0x00, 0x00, 0x0C,
      0x00, 0x04, 0x00, 0x24, 0x00, 0x00, 0x00, 0x04, 0x00, 0x04, 0x00, 0x01, 0x00, 0x00,
      0x00, 0x42, 0xFF, 0xFF,
      0x00, 0x00,
      0x00, 0x41, 0xFF, 0xFF,
      0x00, 0x00, 0x00, 0x01,
      0x00, 0x04, 0x00, 0x00,
      0x00, 0x10, 0x00, 0x11]"

text \<open>What \<^verbatim>\<open>ParseCMAP\<close> returns for \<open>unordered_table\<close> and, recoding, for \<open>shift_jis_table\<close>.\<close>

definition unordered_cmap :: CmapResult where
  "unordered_cmap =
     \<lparr> cr_mpRangeCodes = Allocated [0x50, 0x51, 0x41, 0x42], cr_mpStartGlyphs = Some [0x50, 0x41],
       cr_mpGlyphIds = Some [0], cr_mnRangeCount = 2, cr_mbSymbolic = False, cr_mbRecoded = False \<rparr>"

definition recoded_cmap :: CmapResult where
  "recoded_cmap =
     \<lparr> cr_mpRangeCodes = Allocated [0x41, 0x42], cr_mpStartGlyphs = None,
       cr_mpGlyphIds = None, cr_mnRangeCount = 1, cr_mbSymbolic = False, cr_mbRecoded = True \<rparr>"

section \<open>Invariants of the parser\<close>

text \<open>
  What holds of the arrays while a subtable is decoded: one start glyph per code pair,
  and a glyph id array that is not empty (it starts with the entry 0).
\<close>

definition decoded_ok :: "decoded \<Rightarrow> bool" where
  "decoded_ok d \<longleftrightarrow>
     length (d_pCodePairs d) = 2 * length (d_pStartGlyphs d) \<and> d_aGlyphIdArray d \<noteq> []"

text \<open>Every range of a boundary sequence starts before it ends.\<close>

definition pairs_lt :: "sal_UCS4 list \<Rightarrow> bool" where
  "pairs_lt p \<longleftrightarrow> list_all (\<lambda>(cFirst, cLast). cFirst < cLast) (pairs_of p)"

text \<open>
  The supported code points while a table is recoded: strictly increasing (a sorted
  vector without duplicates) and 16-bit, as they come from \<^verbatim>\<open>sal_Unicode\<close>. The
  ranges built from them: strictly increasing, of even length, no boundary beyond
  \<open>0x10000\<close>.
\<close>

definition points_ok :: "sal_UCS4 list \<Rightarrow> bool" where
  "points_ok pts \<longleftrightarrow> sorted_wrt (<) pts \<and> list_all (\<lambda>p. p \<le> 0xFFFF) pts"

definition ranges_ok :: "sal_UCS4 list \<Rightarrow> bool" where
  "ranges_ok rs \<longleftrightarrow> sorted_wrt (<) rs \<and> even (length rs) \<and> list_all (\<lambda>b. b \<le> 0x10000) rs"


section \<open>Properties\<close>

subsection \<open>The binary search\<close>

lemma fri_post_mono: "fri_post p c lo' up' r \<Longrightarrow> lo \<le> lo' \<Longrightarrow> up' \<le> up \<Longrightarrow> fri_post p c lo up r"
  unfolding fri_post_def by auto

lemma findRangeIndex_loop_inv:
  "sorted_wrt (<) p \<Longrightarrow> 0 \<le> lo \<Longrightarrow> lo \<le> up \<Longrightarrow> up < int (length p) \<Longrightarrow>
   mid = (lo + up + 1) sdiv 2 \<Longrightarrow>
   (lo = 0 \<or> p ! nat lo \<le> c) \<Longrightarrow> (\<forall>j. up < j \<and> j < int (length p) \<longrightarrow> c < p ! nat j) \<Longrightarrow>
   fri_post p c lo up (findRangeIndex_loop p c lo mid up)"
proof (induction p c lo mid up rule: findRangeIndex_loop.induct)
  case (1 p cChar nLower nMid nUpper)
  note srt = "1.prems"(1)
  show ?case
  proof (cases "nLower < nUpper")
    case False
    with "1.prems" have eq: "nLower = nUpper" by simp
    have "(nUpper + nUpper + 1) sdiv 2 = nUpper"
      using "1.prems"(2) eq by (simp add: sdiv_nonneg)
    then have m: "nMid = nUpper" using "1.prems"(5) eq by simp
    have r: "findRangeIndex_loop p cChar nLower nMid nUpper = nUpper"
      using eq m by (subst findRangeIndex_loop.simps) simp
    show ?thesis unfolding r fri_post_def using "1.prems"(6,7) eq by simp
  next
    case lt: True
    from sdiv2_mid [OF lt] "1.prems"(5) have mid: "nLower < nMid" "nMid \<le> nUpper" by auto
    show ?thesis
    proof (cases "cChar \<ge> p ! nat nMid")
      case True
      have "fri_post p cChar nMid nUpper
              (findRangeIndex_loop p cChar nMid ((nMid + nUpper + 1) sdiv 2) nUpper)"
      proof (rule "1.IH"(1) [OF lt True srt])
        show "0 \<le> nMid" using mid "1.prems"(2) by simp
        show "nMid \<le> nUpper" by (rule mid)
        show "nUpper < int (length p)" by (rule "1.prems"(4))
        show "(nMid + nUpper + 1) sdiv 2 = (nMid + nUpper + 1) sdiv 2" by (rule refl)
        show "nMid = 0 \<or> p ! nat nMid \<le> cChar" using True by simp
        show "\<forall>j. nUpper < j \<and> j < int (length p) \<longrightarrow> cChar < p ! nat j" by (rule "1.prems"(7))
      qed
      moreover have "findRangeIndex_loop p cChar nLower nMid nUpper =
            findRangeIndex_loop p cChar nMid ((nMid + nUpper + 1) sdiv 2) nUpper"
        using lt True by (subst findRangeIndex_loop.simps) simp
      ultimately show ?thesis using mid fri_post_mono [of p cChar nMid nUpper _ nLower nUpper] by simp
    next
      case False
      have above: "\<forall>j. nMid - 1 < j \<and> j < int (length p) \<longrightarrow> cChar < p ! nat j"
      proof (intro allI impI)
        fix j assume j: "nMid - 1 < j \<and> j < int (length p)"
        show "cChar < p ! nat j"
        proof (cases "j = nMid")
          case True with False show ?thesis by simp
        next
          case F: False
          with j mid "1.prems"(2) have "nat nMid < nat j" "nat j < length p" by auto
          with srt have "p ! nat nMid < p ! nat j" by (simp add: sorted_wrt_iff_nth_less)
          with False show ?thesis by simp
        qed
      qed
      have "fri_post p cChar nLower (nMid - 1)
              (findRangeIndex_loop p cChar nLower ((nLower + (nMid - 1) + 1) sdiv 2) (nMid - 1))"
      proof (rule "1.IH"(2) [OF lt False srt])
        show "0 \<le> nLower" by (rule "1.prems"(2))
        show "nLower \<le> nMid - 1" using mid by simp
        show "nMid - 1 < int (length p)" using mid "1.prems"(4) by simp
        show "(nLower + (nMid - 1) + 1) sdiv 2 = (nLower + (nMid - 1) + 1) sdiv 2" by (rule refl)
        show "nLower = 0 \<or> p ! nat nLower \<le> cChar" by (rule "1.prems"(6))
        show "\<forall>j. nMid - 1 < j \<and> j < int (length p) \<longrightarrow> cChar < p ! nat j" by (rule above)
      qed
      moreover have "findRangeIndex_loop p cChar nLower nMid nUpper =
            findRangeIndex_loop p cChar nLower ((nLower + (nMid - 1) + 1) sdiv 2) (nMid - 1)"
        using lt False by (subst findRangeIndex_loop.simps) simp
      ultimately show ?thesis using mid fri_post_mono [of p cChar nLower "nMid - 1" _ nLower nUpper] by simp
    qed
  qed
qed

lemma findRangeIndex_post:
  assumes "range_table_ok m"
  shows "fri_post (codes m) c 0 (2 * mnRangeCount m - 1) (findRangeIndex m c)"
  unfolding findRangeIndex_def
proof (rule findRangeIndex_loop_inv)
  show "sorted_wrt (<) (codes m)" using assms by (simp add: range_table_ok_def)
  show "(0::int) \<le> 0" by simp
  show "0 \<le> 2 * mnRangeCount m - 1" using assms by (simp add: range_table_ok_def)
  show "2 * mnRangeCount m - 1 < int (length (codes m))" using assms by (simp add: range_table_ok_def)
  show "mnRangeCount m = (0 + (2 * mnRangeCount m - 1) + 1) sdiv 2"
    using assms by (simp add: range_table_ok_def sdiv_nonneg)
  show "(0::int) = 0 \<or> codes m ! nat 0 \<le> c" by simp
  show "\<forall>j. 2 * mnRangeCount m - 1 < j \<and> j < int (length (codes m)) \<longrightarrow> c < codes m ! nat j"
    using assms by (auto simp: range_table_ok_def)
qed

lemma nth_mono_strict:
  "sorted_wrt (<) (p :: sal_UCS4 list) \<Longrightarrow> i \<le> j \<Longrightarrow> j < length p \<Longrightarrow> p ! i \<le> p ! j"
  by (cases "i = j") (auto simp: sorted_wrt_iff_nth_less less_imp_le)

lemma findRangeIndex_before_first:
  assumes ok: "range_table_ok m" and lt: "c < codes m ! 0"
  shows "findRangeIndex m c = 0"
proof (rule ccontr)
  assume ne: "findRangeIndex m c \<noteq> 0"
  from findRangeIndex_post [OF ok, of c] ne
  have r: "0 \<le> findRangeIndex m c" "findRangeIndex m c \<le> 2 * mnRangeCount m - 1"
    "codes m ! nat (findRangeIndex m c) \<le> c"
    by (auto simp: fri_post_def)
  from ok r have "findRangeIndex m c < int (length (codes m))" by (simp add: range_table_ok_def)
  with r(1) have "nat (findRangeIndex m c) < length (codes m)" by linarith
  with ok have "codes m ! 0 \<le> codes m ! nat (findRangeIndex m c)"
    by (intro nth_mono_strict) (simp_all add: range_table_ok_def)
  with r(3) lt show False by simp
qed

lemma findRangeIndex_greatest_aux:
  assumes ok: "range_table_ok m" and ge: "codes m ! 0 \<le> c"
  shows "0 \<le> findRangeIndex m c" "findRangeIndex m c < 2 * mnRangeCount m"
    "codes m ! nat (findRangeIndex m c) \<le> c"
    "\<And>j. j < length (codes m) \<Longrightarrow> codes m ! j \<le> c \<Longrightarrow> int j \<le> findRangeIndex m c"
proof -
  from findRangeIndex_post [OF ok, of c]
  have r: "0 \<le> findRangeIndex m c" "findRangeIndex m c \<le> 2 * mnRangeCount m - 1"
    "findRangeIndex m c = 0 \<or> codes m ! nat (findRangeIndex m c) \<le> c"
    "\<forall>j. findRangeIndex m c < j \<and> j < int (length (codes m)) \<longrightarrow> c < codes m ! nat j"
    by (auto simp: fri_post_def)
  show "0 \<le> findRangeIndex m c" by (rule r)
  show "findRangeIndex m c < 2 * mnRangeCount m" using r(2) by simp
  show "codes m ! nat (findRangeIndex m c) \<le> c" using r(3) ge by auto
  show "int j \<le> findRangeIndex m c" if "j < length (codes m)" "codes m ! j \<le> c" for j
  proof (rule ccontr)
    assume "\<not> int j \<le> findRangeIndex m c"
    moreover from r(4) have "findRangeIndex m c < int j \<and> int j < int (length (codes m))
        \<longrightarrow> c < codes m ! nat (int j)" by (rule spec)
    ultimately have "c < codes m ! nat (int j)" using that(1) by simp
    with that(2) show False by simp
  qed
qed

lemma findRangeIndex_even_iff:
  assumes ok: "range_table_ok m" and ge: "codes m ! 0 \<le> c"
  shows "even (findRangeIndex m c) \<longleftrightarrow> covered m c"
proof
  let ?r = "findRangeIndex m c"
  note g = findRangeIndex_greatest_aux [OF ok ge]
  from findRangeIndex_post [OF ok, of c]
  have above: "\<forall>j. ?r < j \<and> j < int (length (codes m)) \<longrightarrow> c < codes m ! nat j"
    by (auto simp: fri_post_def)
  from ok have len: "int (length (codes m)) = 2 * mnRangeCount m" by (simp add: range_table_ok_def)
  {
    assume ev: "even ?r"
    then obtain k where k: "?r = 2 * k" by (auto elim: evenE)
    with g(1,2) have kb: "0 \<le> k" "k < mnRangeCount m" by auto
    have "?r + 1 < int (length (codes m))" using k kb len by simp
    with above have "c < codes m ! nat (?r + 1)" by simp
    moreover have "nat (?r + 1) = 2 * nat k + 1" "nat ?r = 2 * nat k" using k kb by auto
    ultimately have "in_range m (nat k) c" using g(3) kb by (simp add: in_range_def)
    then show "covered m c" using kb unfolding covered_def by (intro exI [of _ "nat k"]) simp
  }
  {
    assume "covered m c"
    then obtain i where i: "int i < mnRangeCount m" "codes m ! (2 * i) \<le> c" "c < codes m ! (2 * i + 1)"
      by (auto simp: covered_def in_range_def)
    then have "2 * i < length (codes m)" "2 * i + 1 < length (codes m)" using len by auto
    with g(4) [of "2 * i"] i have lo: "int (2 * i) \<le> ?r" by simp
    have "?r < int (2 * i + 1)"
    proof (rule ccontr)
      assume "\<not> ?r < int (2 * i + 1)"
      then have "2 * i + 1 \<le> nat ?r" by simp
      moreover have "nat ?r < length (codes m)" using g(1,2) len by simp
      ultimately have "codes m ! (2 * i + 1) \<le> codes m ! nat ?r"
        using ok by (intro nth_mono_strict) (simp_all add: range_table_ok_def)
      with g(3) i(3) show False by simp
    qed
    with lo have "?r = 2 * int i" by simp
    then show "even ?r" by simp
  }
qed









subsection \<open>Evaluating the model on the examples\<close>

lemma format4_loop_numeral:
  "format4_loop pCmap nLength pLimitBase pBeginBase pDeltaBase pOffsetBase (numeral k) i d =
     (case format4_segment pCmap nLength pLimitBase pBeginBase pDeltaBase pOffsetBase i d of
        None \<Rightarrow> None
      | Some Break \<Rightarrow> Some d
      | Some (Next d') \<Rightarrow>
          format4_loop pCmap nLength pLimitBase pBeginBase pDeltaBase pOffsetBase (pred_numeral k) (i + 1) d')"
  by (simp add: numeral_eq_Suc)

lemma select_loop_numeral:
  "select_loop pCmap nLength (numeral k) p s =
     (case select_subtable pCmap nLength p s of
        None \<Rightarrow> None
      | Some s' \<Rightarrow> select_loop pCmap nLength (pred_numeral k) (p + 8) s')"
  by (simp add: numeral_eq_Suc)

lemma format12_loop_numeral:
  "format12_loop pCmap (numeral k) pGroup d =
     (case format12_group pCmap pGroup d of
        None \<Rightarrow> None
      | Some Break \<Rightarrow> Some d
      | Some (Next d') \<Rightarrow> format12_loop pCmap (pred_numeral k) (pGroup + 12) d')"
  by (simp add: numeral_eq_Suc)

lemma recode_chunk_numeral:
  "recode_chunk (numeral k) cMin cEnd cCharsInp =
     (if cMin < cEnd then
        recode_chunk (pred_numeral k) (cMin + 1) cEnd
          (cCharsInp
           @ (if cMin \<ge> 0x0100 then [ucast (drop_bit 8 cMin)] else [])
           @ (if cMin \<ge> 0x0100 \<or> cMin < 0x00A0 then [ucast cMin] else []))
      else (cMin, cCharsInp))"
  by (simp add: numeral_eq_Suc)

lemmas parse_eval = ParseCMAP_def parse_subtables_def select_subtable_def encoding_value_def
  selection_init_def parse_best_subtable_def parse_format4_def parse_format12_def
  format4_range_count_def format12_range_count_def format4_segment_def format12_group_def
  decoded_init_def decoded_range_count_def parse_result_def CmapResult_reset_def
  GetUShort_def GetSShort_def GetUInt_def byte_at_def signed_divide_int_def
  format4_loop_numeral format12_loop_numeral select_loop_numeral recode_chunk_numeral Let_def

lemmas map_eval = ImplFontCharMap_ctor_def CmapResult_ctor_def default_map_def
  symbol_font_cmap_def pua_font_cmap_def symbol_fallback_cmap_def wide_cmap_def range_pairs_def
  findRangeIndex_def findRangeIndex_loop.simps sdiv_nonneg
  GetGlyphIndex_def glyph_of_range_def HasChar_def GetIndexFromChar_def GetCharFromIndex_def
  GetFirstChar_def range_table_ok_def char_total_def covered_def in_range_def
  word_sless_alt upt_rec


lemma parse_pua_font_table:
  "ParseCMAP create (Some pua_font_table) 44 = Some (True, pua_font_cmap)"
  by (simp add: parse_eval pua_font_table_def pua_font_cmap_def)

lemma parse_symbol_only_table:
  "ParseCMAP create (Some symbol_only_table) 32 = Some (True, symbol_fallback_cmap)"
  by (simp add: parse_eval symbol_only_table_def symbol_fallback_cmap_def)

lemma sym_ok: "range_table_ok (ImplFontCharMap_ctor symbol_font_cmap)"
  by (simp add: map_eval)

lemma sym_total:
  "char_total (range_pairs (codes (ImplFontCharMap_ctor symbol_font_cmap))
     (mnRangeCount (ImplFontCharMap_ctor symbol_font_cmap))) < 2 ^ 31"
  by (simp add: map_eval)




lemma sym_ncov41: "\<not> covered (ImplFontCharMap_ctor symbol_font_cmap) 0x41"
  by (simp add: map_eval)

lemma sym_ncov141: "\<not> covered (ImplFontCharMap_ctor symbol_font_cmap) 0x141"
  by (simp add: map_eval)

lemma sym_glyph_F041: "GetGlyphIndex (ImplFontCharMap_ctor symbol_font_cmap) 0xF041 = Some 36"
  by (simp add: map_eval)

lemma pua_ok: "range_table_ok (ImplFontCharMap_ctor pua_font_cmap)"
  by (simp add: map_eval)

lemma pua_glyph_20: "GetGlyphIndex (ImplFontCharMap_ctor pua_font_cmap) 0x20 = Some 5"
  by (simp add: map_eval)

lemma pua_ncov20: "\<not> covered (ImplFontCharMap_ctor pua_font_cmap) 0x20"
  by (simp add: map_eval)



lemma dsym_glyph41: "GetGlyphIndex (default_map True) 0x41 = Some (- 1)"
  by (simp add: map_eval)

subsection \<open>Index and character\<close>












lemma and1_even: "(k::int) AND 1 = 0 \<longleftrightarrow> even k"
  by (simp add: and_one_eq even_iff_mod_2_eq_zero)







text \<open>
  The bound on the number of characters is needed: on a map with the ranges \<open>[0, 1)\<close>
  and \<open>[2, 0x80000003)\<close> the character 2 has the index 1, and the walk of
  \<open>GetCharFromIndex\<close> from 1 never sees a negative \<^verbatim>\<open>int\<close>, so it answers the first
  character.
\<close>

lemma roundtrip_needs_bound:
  "range_table_ok (ImplFontCharMap_ctor wide_cmap) \<and>
   HasChar (ImplFontCharMap_ctor wide_cmap) 2 = Some True \<and>
   GetIndexFromChar (ImplFontCharMap_ctor wide_cmap) 2 = 1 \<and>
   GetCharFromIndex (ImplFontCharMap_ctor wide_cmap) 1 = 0"
  by (simp add: map_eval)

subsection \<open>Glyph lookup\<close>

lemma or_F000_not_le_FF: "\<not> (c OR 0xF000 \<le> (0xFF :: 32 word))"
proof
  assume "c OR 0xF000 \<le> 0xFF"
  moreover have "(0xF000 :: 32 word) \<le> c OR 0xF000" by (rule le_word_or1)
  ultimately have "(0xF000 :: 32 word) \<le> 0xFF" by (rule order_trans [rotated])
  then show False by simp
qed

lemma GetGlyphIndex_outside_aux:
  assumes ok: "range_table_ok m" and sg: "mpStartGlyphs m = Some sg" and out: "\<not> covered m c"
  shows "c \<le> 0xFF \<and> 0xF000 \<le> codes m ! 0 \<and> codes m ! 1 \<le> 0xF0FF \<Longrightarrow>
           GetGlyphIndex m c = GetGlyphIndex m (c OR 0xF000)"
    and "\<not> (c \<le> 0xFF \<and> 0xF000 \<le> codes m ! 0 \<and> codes m ! 1 \<le> 0xF0FF) \<Longrightarrow>
           GetGlyphIndex m c = Some 0"
proof -
  {
    assume sym: "c \<le> 0xFF \<and> 0xF000 \<le> codes m ! 0 \<and> codes m ! 1 \<le> 0xF0FF"
    from sym have "c \<le> 0xFF" by simp
    also have "(0xFF :: 32 word) < 0xF000" by simp
    also from sym have "0xF000 \<le> codes m ! 0" by simp
    finally have lt: "c < codes m ! 0" .
    note r0 = findRangeIndex_before_first [OF ok lt]
    have l: "GetGlyphIndex m c =
       (if findRangeIndex m (c OR 0xF000) = 0 \<and> c OR 0xF000 < codes m ! 0 then Some 0
        else glyph_of_range m sg (c OR 0xF000) (findRangeIndex m (c OR 0xF000)))"
      using sg r0 lt sym by (simp add: GetGlyphIndex_def Let_def)
    have r: "GetGlyphIndex m (c OR 0xF000) =
       (if findRangeIndex m (c OR 0xF000) = 0 \<and> c OR 0xF000 < codes m ! 0 then Some 0
        else glyph_of_range m sg (c OR 0xF000) (findRangeIndex m (c OR 0xF000)))"
      using sg or_F000_not_le_FF [of c] by (simp add: GetGlyphIndex_def Let_def)
    show "GetGlyphIndex m c = GetGlyphIndex m (c OR 0xF000)" by (simp only: l r)
  }
  {
    assume nsym: "\<not> (c \<le> 0xFF \<and> 0xF000 \<le> codes m ! 0 \<and> codes m ! 1 \<le> 0xF0FF)"
    show "GetGlyphIndex m c = Some 0"
    proof (cases "c < codes m ! 0")
      case True
      with findRangeIndex_before_first [OF ok True] nsym sg show ?thesis
        by (simp add: GetGlyphIndex_def)
    next
      case False
      then have ge: "codes m ! 0 \<le> c" by simp
      with findRangeIndex_even_iff [OF ok ge] out have "odd (findRangeIndex m c)" by simp
      then have "findRangeIndex m c AND 1 \<noteq> 0" by (simp add: and1_even)
      with False sg show ?thesis by (simp add: GetGlyphIndex_def glyph_of_range_def)
    qed
  }
qed

text \<open>
  C4 (as amended). On a map with glyph data and strictly increasing boundaries, for a
  code point \<open>c\<close> outside every range: if \<open>c \<le> 0xFF\<close> and the first range starts at or
  after \<open>0xF000\<close> and its end boundary (exclusive) is at most \<open>0xF0FF\<close>, then
  \<open>GetGlyphIndex c\<close> is the result of the lookup of \<open>c | 0xF000\<close>, whether the map is
  symbolic or not; if \<open>c > 0xFF\<close>, or the first range starts before \<open>0xF000\<close>, or its
  end boundary is beyond \<open>0xF100\<close>, then \<open>GetGlyphIndex c\<close> is 0.
\<close>

theorem GetGlyphIndex_outside:
  assumes "range_table_ok m" and "mpStartGlyphs m = Some sg" and "\<not> covered m c"
  shows "(c \<le> 0xFF \<and> 0xF000 \<le> codes m ! 0 \<and> codes m ! 1 \<le> 0xF0FF \<longrightarrow>
            GetGlyphIndex m c = GetGlyphIndex m (c OR 0xF000)) \<and>
         (0xFF < c \<or> codes m ! 0 < 0xF000 \<or> 0xF100 < codes m ! 1 \<longrightarrow>
            GetGlyphIndex m c = Some 0)"
proof (intro conjI impI)
  assume "c \<le> 0xFF \<and> 0xF000 \<le> codes m ! 0 \<and> codes m ! 1 \<le> 0xF0FF"
  then show "GetGlyphIndex m c = GetGlyphIndex m (c OR 0xF000)"
    by (rule GetGlyphIndex_outside_aux(1) [OF assms])
next
  assume a: "0xFF < c \<or> codes m ! 0 < 0xF000 \<or> 0xF100 < codes m ! 1"
  have "\<not> (c \<le> 0xFF \<and> 0xF000 \<le> codes m ! 0 \<and> codes m ! 1 \<le> 0xF0FF)"
  proof
    assume b: "c \<le> 0xFF \<and> 0xF000 \<le> codes m ! 0 \<and> codes m ! 1 \<le> 0xF0FF"
    with a have "0xF100 < codes m ! 1" by auto
    moreover from b have "codes m ! 1 \<le> 0xF0FF" by simp
    ultimately have "(0xF100 :: 32 word) < 0xF0FF" by (rule less_le_trans)
    then show False by simp
  qed
  then show "GetGlyphIndex m c = Some 0"
    by (rule GetGlyphIndex_outside_aux(2) [OF assms])
qed

theorem GetGlyphIndex_outside_witness:
  "range_table_ok (ImplFontCharMap_ctor symbol_font_cmap) \<and>
   mpStartGlyphs (ImplFontCharMap_ctor symbol_font_cmap) = Some [3] \<and>
   \<not> covered (ImplFontCharMap_ctor symbol_font_cmap) 0x41 \<and>
   GetGlyphIndex (ImplFontCharMap_ctor symbol_font_cmap) 0x41 = Some 36 \<and>
   \<not> covered (ImplFontCharMap_ctor symbol_font_cmap) 0x141 \<and>
   GetGlyphIndex (ImplFontCharMap_ctor symbol_font_cmap) 0x141 = Some 0"
proof -
  let ?m = "ImplFontCharMap_ctor symbol_font_cmap"
  have sg: "mpStartGlyphs ?m = Some [3]" by (simp add: map_eval)
  have first: "(0x41 :: 32 word) \<le> 0xFF \<and> 0xF000 \<le> codes ?m ! 0 \<and> codes ?m ! 1 \<le> 0xF0FF"
    by (simp add: map_eval)
  have e: "(0x41 :: 32 word) OR 0xF000 = 0xF041" by simp
  from GetGlyphIndex_outside [OF sym_ok sg sym_ncov41] first
  have "GetGlyphIndex ?m 0x41 = GetGlyphIndex ?m (0x41 OR 0xF000)" by blast
  then have g1: "GetGlyphIndex ?m 0x41 = Some 36" by (simp only: e sym_glyph_F041)
  have "(0xFF :: 32 word) < 0x141" by simp
  with GetGlyphIndex_outside [OF sym_ok sg sym_ncov141]
  have g2: "GetGlyphIndex ?m 0x141 = Some 0" by blast
  from sym_ok sg sym_ncov41 g1 sym_ncov141 g2 show ?thesis by simp
qed

text \<open>
  C4 as stated fails on a map that is not symbolic: the map parsed from
  \<open>pua_font_table\<close> (Windows UCS-2, one range \<open>[0xF020, 0xF030)\<close>) is not symbolic,
  \<open>0x20\<close> is outside every range, and \<open>GetGlyphIndex 0x20\<close> is 5, not 0.
\<close>

theorem GetGlyphIndex_outside_counterexample:
  "ParseCMAP no_converter (Some pua_font_table) 44 = Some (True, pua_font_cmap) \<and>
   range_table_ok (ImplFontCharMap_ctor pua_font_cmap) \<and>
   mpStartGlyphs (ImplFontCharMap_ctor pua_font_cmap) = Some [5] \<and>
   \<not> m_bSymbolic (ImplFontCharMap_ctor pua_font_cmap) \<and>
   \<not> covered (ImplFontCharMap_ctor pua_font_cmap) 0x20 \<and>
   GetGlyphIndex (ImplFontCharMap_ctor pua_font_cmap) 0x20 = Some 5"
  using parse_pua_font_table [of no_converter] pua_ok pua_ncov20 pua_glyph_20
  by (simp add: ImplFontCharMap_ctor_def pua_font_cmap_def)

text \<open>
  C1 (as amended). On a map without glyph data \<open>GetGlyphIndex\<close> returns \<open>-1\<close> for every
  code point. The result of the parser has no glyph data when no range was decoded (the
  symbolic fallback) and when the winning subtable is not Unicode and its converter
  exists (the recoding path).
\<close>

theorem GetGlyphIndex_no_glyphs:
  "(mpStartGlyphs m = None \<longrightarrow> GetGlyphIndex m c = Some (- 1)) \<and>
   (decoded_range_count d \<le> 0 \<longrightarrow>
      GetGlyphIndex (ImplFontCharMap_ctor (snd (parse_result create s d))) c = Some (- 1)) \<and>
   (sel_eRecodeFrom s \<noteq> RTL_TEXTENCODING_UNICODE \<and> create (sel_eRecodeFrom s) \<noteq> None \<longrightarrow>
      GetGlyphIndex (ImplFontCharMap_ctor (snd (parse_result create s d))) c = Some (- 1))"
proof -
  have g: "mpStartGlyphs m = None \<Longrightarrow> GetGlyphIndex m c = Some (- 1)" for m
    by (simp add: GetGlyphIndex_def)
  have "decoded_range_count d \<le> 0 \<Longrightarrow>
      mpStartGlyphs (ImplFontCharMap_ctor (snd (parse_result create s d))) = None"
    by (simp add: parse_result_def ImplFontCharMap_ctor_def CmapResult_reset_def Let_def)
  moreover have "sel_eRecodeFrom s \<noteq> RTL_TEXTENCODING_UNICODE \<and> create (sel_eRecodeFrom s) \<noteq> None \<Longrightarrow>
      mpStartGlyphs (ImplFontCharMap_ctor (snd (parse_result create s d))) = None"
    by (auto simp: parse_result_def ImplFontCharMap_ctor_def CmapResult_reset_def Let_def)
  ultimately show ?thesis using g by blast
qed

text \<open>
  C1 as stated fails: the symbol default map has no glyph data and \<open>GetGlyphIndex\<close>
  answers \<open>-1\<close>, not 0.
\<close>

theorem GetGlyphIndex_no_glyphs_counterexample:
  "mpStartGlyphs (default_map True) = None \<and>
   GetGlyphIndex (default_map True) 0x41 = Some (- 1) \<and>
   GetGlyphIndex (default_map True) 0x41 \<noteq> Some 0"
  using dsym_glyph41 by (simp add: map_eval)

theorem GetGlyphIndex_no_glyphs_witness:
  "mpStartGlyphs (default_map True) = None \<and>
   GetGlyphIndex (default_map True) 0x41 = Some (- 1) \<and>
   decoded_range_count decoded_init \<le> 0 \<and>
   GetGlyphIndex (ImplFontCharMap_ctor (snd (parse_result no_converter
      (selection_init\<lparr>sel_mbSymbolic := True\<rparr>) decoded_init))) 0x41 = Some (- 1) \<and>
   sel_eRecodeFrom shift_jis_selection \<noteq> RTL_TEXTENCODING_UNICODE \<and>
   bytewise_converter (sel_eRecodeFrom shift_jis_selection) \<noteq> None \<and>
   GetGlyphIndex (ImplFontCharMap_ctor (snd (parse_result bytewise_converter
      shift_jis_selection one_range_decoded))) 0x41 = Some (- 1)"
proof -
  have a: "mpStartGlyphs (default_map True) = None" by (simp add: map_eval)
  have b: "decoded_range_count decoded_init \<le> 0"
    by (simp add: decoded_range_count_def decoded_init_def)
  have c: "sel_eRecodeFrom shift_jis_selection \<noteq> RTL_TEXTENCODING_UNICODE"
    "bytewise_converter (sel_eRecodeFrom shift_jis_selection) \<noteq> None"
    by (simp_all add: shift_jis_selection_def bytewise_converter_def)
  from GetGlyphIndex_no_glyphs [of "default_map True" "0x41" decoded_init no_converter
      "selection_init\<lparr>sel_mbSymbolic := True\<rparr>"] a b
  have 1: "GetGlyphIndex (default_map True) 0x41 = Some (- 1)"
    "GetGlyphIndex (ImplFontCharMap_ctor (snd (parse_result no_converter
      (selection_init\<lparr>sel_mbSymbolic := True\<rparr>) decoded_init))) 0x41 = Some (- 1)"
    by blast+
  from GetGlyphIndex_no_glyphs [of "default_map True" "0x41" one_range_decoded bytewise_converter
      shift_jis_selection] c
  have 2: "GetGlyphIndex (ImplFontCharMap_ctor (snd (parse_result bytewise_converter
      shift_jis_selection one_range_decoded))) 0x41 = Some (- 1)"
    by blast
  from a b c 1 2 show ?thesis by simp
qed

subsection \<open>The header\<close>

lemma byte_at_Some:
  "0 \<le> i \<Longrightarrow> i < int (length pCmap) \<Longrightarrow> \<exists>v. byte_at pCmap i = Some v \<and> 0 \<le> v \<and> v < 256"
  using uint_lt2p [of "pCmap ! nat i"] by (simp add: byte_at_def)

lemma GetUShort_Some:
  assumes "0 \<le> p" and "p + 2 \<le> int (length pCmap)"
  shows "\<exists>v. GetUShort pCmap p = Some v \<and> 0 \<le> v \<and> v < 65536"
proof -
  from assms byte_at_Some [of p pCmap] obtain b0 where
    b0: "byte_at pCmap p = Some b0" "0 \<le> b0" "b0 < 256" by auto
  from assms byte_at_Some [of "p + 1" pCmap] obtain b1 where
    b1: "byte_at pCmap (p + 1) = Some b1" "0 \<le> b1" "b1 < 256" by auto
  have "push_bit 8 b0 OR b1 < 2 ^ 16"
    using b0 b1 by (intro OR_upper) (simp_all add: push_bit_eq_mult)
  moreover have "0 \<le> push_bit 8 b0 OR b1" using b0 b1 by simp
  ultimately show ?thesis using b0 b1 by (simp add: GetUShort_def)
qed

lemma header_reads:
  assumes "24 \<le> nLength" and "nLength \<le> int (length buf)"
  shows "GetUShort buf 0 \<noteq> None" and "GetUShort buf 2 \<noteq> None"
  using GetUShort_Some [of 0 buf] GetUShort_Some [of 2 buf] assms by auto

lemma ParseCMAP_success_header:
  assumes "ParseCMAP create pCmap nLength = Some (True, r)"
  shows "\<exists>buf nSubTables. pCmap = Some buf \<and> 24 \<le> nLength \<and> GetUShort buf 0 = Some 0 \<and>
           GetUShort buf 2 = Some nSubTables \<and> 0 < nSubTables \<and>
           nSubTables \<le> (nLength - 24) div 8"
proof (cases pCmap)
  case None
  with assms show ?thesis by (simp add: ParseCMAP_def)
next
  case (Some buf)
  with assms have len: "24 \<le> nLength"
    by (auto simp: ParseCMAP_def split: if_splits)
  with assms Some obtain v where v: "GetUShort buf 0 = Some v"
    by (cases "GetUShort buf 0") (auto simp: ParseCMAP_def)
  with assms Some len have v0: "v = 0"
    by (auto simp: ParseCMAP_def split: if_splits)
  with assms Some len v obtain n where n: "GetUShort buf 2 = Some n"
    by (cases "GetUShort buf 2") (auto simp: ParseCMAP_def)
  with assms Some len v v0 have "0 < n \<and> n \<le> (nLength - 24) sdiv 8"
    by (auto simp: ParseCMAP_def split: if_splits)
  with len have "0 < n \<and> n \<le> (nLength - 24) div 8" by (simp add: sdiv_nonneg)
  with Some len v v0 n show ?thesis by simp
qed

text \<open>
  C7. \<open>ParseCMAP\<close> returns false, with the result cleared and without a read outside
  the buffer, when the buffer is absent, when \<open>nLength < 24\<close>, when the version is not
  0, and when the subtable count is \<open>\<le> 0\<close> or more than \<open>(nLength - 24) / 8\<close>; with
  \<open>nLength \<ge> 24\<close> bytes in the buffer the two header reads are inside it. With all
  conditions met the parser goes on to the subtables, and a parse that returns true
  met them all.
\<close>

theorem ParseCMAP_header:
  "ParseCMAP create None nLength = Some (False, CmapResult_reset) \<and>
   (nLength < 24 \<longrightarrow> ParseCMAP create (Some buf) nLength = Some (False, CmapResult_reset)) \<and>
   (24 \<le> nLength \<and> nLength \<le> int (length buf) \<longrightarrow>
      GetUShort buf 0 \<noteq> None \<and> GetUShort buf 2 \<noteq> None) \<and>
   (24 \<le> nLength \<and> GetUShort buf 0 = Some nVersion \<and> nVersion \<noteq> 0 \<longrightarrow>
      ParseCMAP create (Some buf) nLength = Some (False, CmapResult_reset)) \<and>
   (24 \<le> nLength \<and> GetUShort buf 0 = Some 0 \<and> GetUShort buf 2 = Some nSubTables \<and>
    (nSubTables \<le> 0 \<or> nSubTables > (nLength - 24) div 8) \<longrightarrow>
      ParseCMAP create (Some buf) nLength = Some (False, CmapResult_reset)) \<and>
   (24 \<le> nLength \<and> GetUShort buf 0 = Some 0 \<and> GetUShort buf 2 = Some nSubTables \<and>
    0 < nSubTables \<and> nSubTables \<le> (nLength - 24) div 8 \<longrightarrow>
      ParseCMAP create (Some buf) nLength = parse_subtables create buf nLength nSubTables) \<and>
   (ParseCMAP create pCmap nLength = Some (True, r) \<longrightarrow>
      (\<exists>buf nSubTables. pCmap = Some buf \<and> 24 \<le> nLength \<and> GetUShort buf 0 = Some 0 \<and>
         GetUShort buf 2 = Some nSubTables \<and> 0 < nSubTables \<and>
         nSubTables \<le> (nLength - 24) div 8))"
proof (intro conjI impI)
  show "ParseCMAP create None nLength = Some (False, CmapResult_reset)"
    by (simp add: ParseCMAP_def)
  show "ParseCMAP create (Some buf) nLength = Some (False, CmapResult_reset)" if "nLength < 24"
    using that by (simp add: ParseCMAP_def)
  show "GetUShort buf 0 \<noteq> None" if "24 \<le> nLength \<and> nLength \<le> int (length buf)"
    using that header_reads(1) [of nLength buf] by simp
  show "GetUShort buf 2 \<noteq> None" if "24 \<le> nLength \<and> nLength \<le> int (length buf)"
    using that header_reads(2) [of nLength buf] by simp
  show "ParseCMAP create (Some buf) nLength = Some (False, CmapResult_reset)"
    if "24 \<le> nLength \<and> GetUShort buf 0 = Some nVersion \<and> nVersion \<noteq> 0"
    using that by (simp add: ParseCMAP_def)
  show "ParseCMAP create (Some buf) nLength = Some (False, CmapResult_reset)"
    if "24 \<le> nLength \<and> GetUShort buf 0 = Some 0 \<and> GetUShort buf 2 = Some nSubTables \<and>
        (nSubTables \<le> 0 \<or> nSubTables > (nLength - 24) div 8)"
    using that by (auto simp: ParseCMAP_def sdiv_nonneg)
  show "ParseCMAP create (Some buf) nLength = parse_subtables create buf nLength nSubTables"
    if "24 \<le> nLength \<and> GetUShort buf 0 = Some 0 \<and> GetUShort buf 2 = Some nSubTables \<and>
        0 < nSubTables \<and> nSubTables \<le> (nLength - 24) div 8"
    using that by (auto simp: ParseCMAP_def sdiv_nonneg)
  show "\<exists>buf nSubTables. pCmap = Some buf \<and> 24 \<le> nLength \<and> GetUShort buf 0 = Some 0 \<and>
         GetUShort buf 2 = Some nSubTables \<and> 0 < nSubTables \<and>
         nSubTables \<le> (nLength - 24) div 8"
    if "ParseCMAP create pCmap nLength = Some (True, r)"
    using that by (rule ParseCMAP_success_header)
qed

lemma parse_format4_table:
  "ParseCMAP create (Some (format4_table e0 e1 s0 s1 d0 d1 o0 o1)) 44 = Some (True, format4_cmap)"
  by (simp add: parse_eval format4_table_def format4_cmap_def)

theorem ParseCMAP_header_witness:
  "(0 :: int) < 24 \<and> ParseCMAP no_converter (Some []) 0 = Some (False, CmapResult_reset) \<and>
   GetUShort bad_version_table 0 = Some 1 \<and>
   ParseCMAP no_converter (Some bad_version_table) 32 = Some (False, CmapResult_reset) \<and>
   GetUShort overdeclared_table 2 = Some 2 \<and> (2 :: int) > (32 - 24) div 8 \<and>
   ParseCMAP no_converter (Some overdeclared_table) 32 = Some (False, CmapResult_reset) \<and>
   (24 :: int) \<le> 44 \<and> 44 \<le> int (length (format4_table 0xFF 0xFF 0xFF 0xFF 0 1 0 0)) \<and>
   GetUShort (format4_table 0xFF 0xFF 0xFF 0xFF 0 1 0 0) 0 = Some 0 \<and>
   GetUShort (format4_table 0xFF 0xFF 0xFF 0xFF 0 1 0 0) 2 = Some 1 \<and>
   (0 :: int) < 1 \<and> (1 :: int) \<le> (44 - 24) div 8 \<and>
   parse_subtables no_converter (format4_table 0xFF 0xFF 0xFF 0xFF 0 1 0 0) 44 1 =
     Some (True, format4_cmap) \<and>
   ParseCMAP no_converter (Some (format4_table 0xFF 0xFF 0xFF 0xFF 0 1 0 0)) 44 =
     Some (True, format4_cmap)"
proof -
  let ?t = "format4_table 0xFF 0xFF 0xFF 0xFF 0 1 0 0"
  note h = ParseCMAP_header [of no_converter]
  have 1: "ParseCMAP no_converter (Some []) 0 = Some (False, CmapResult_reset)"
    using h [of 0 "[]"] by simp
  have v: "GetUShort bad_version_table 0 = Some 1"
    by (simp add: GetUShort_def byte_at_def bad_version_table_def)
  have 2: "ParseCMAP no_converter (Some bad_version_table) 32 = Some (False, CmapResult_reset)"
    using h [of 32 bad_version_table 1] v by simp
  have o: "GetUShort overdeclared_table 0 = Some 0" "GetUShort overdeclared_table 2 = Some 2"
    by (simp_all add: GetUShort_def byte_at_def overdeclared_table_def)
  have 3: "ParseCMAP no_converter (Some overdeclared_table) 32 = Some (False, CmapResult_reset)"
    using h [of 32 overdeclared_table _ 2] o by simp
  have f: "GetUShort ?t 0 = Some 0" "GetUShort ?t 2 = Some 1"
    by (simp_all add: GetUShort_def byte_at_def format4_table_def)
  have "ParseCMAP no_converter (Some ?t) 44 = parse_subtables no_converter ?t 44 1"
    using h [of 44 ?t _ 1] f by simp
  then have 4: "parse_subtables no_converter ?t 44 1 = Some (True, format4_cmap)"
    by (simp add: parse_format4_table)
  have l: "44 \<le> int (length ?t)" by (simp add: format4_table_def)
  from 1 v 2 o 3 f 4 l parse_format4_table [of no_converter] show ?thesis by simp
qed

subsection \<open>The symbolic fallback\<close>

lemma fallback_has41: "HasChar (ImplFontCharMap_ctor symbol_fallback_cmap) 0x41 = Some True"
  by (simp add: map_eval)

text \<open>
  C9. When the header is valid and the subtable that was chosen and decoded gave no
  range: if the choice of the subtable set the symbolic flag, \<open>ParseCMAP\<close> returns true
  with exactly the ranges \<open>[0x0020, 0x0100)\<close> and \<open>[0xF020, 0xF100)\<close> and no glyph
  data, and the map built from this result has the character \<open>0x41\<close>; if the flag is
  not set, \<open>ParseCMAP\<close> returns false.
\<close>

theorem ParseCMAP_symbolic_fallback:
  assumes "24 \<le> nLength" and "GetUShort buf 0 = Some 0" and "GetUShort buf 2 = Some nSubTables"
    and "0 < nSubTables" and "nSubTables \<le> (nLength - 24) div 8"
    and "select_loop buf nLength (nat nSubTables) 4 selection_init = Some s"
    and "parse_best_subtable buf nLength s = Some d"
    and "decoded_range_count d \<le> 0"
  shows "(sel_mbSymbolic s \<longrightarrow>
            ParseCMAP create (Some buf) nLength = Some (True, symbol_fallback_cmap) \<and>
            cr_mpRangeCodes symbol_fallback_cmap = Allocated [0x0020, 0x0100, 0xF020, 0xF100] \<and>
            cr_mnRangeCount symbol_fallback_cmap = 2 \<and>
            cr_mpStartGlyphs symbol_fallback_cmap = None \<and>
            cr_mpGlyphIds symbol_fallback_cmap = None \<and>
            HasChar (ImplFontCharMap_ctor symbol_fallback_cmap) 0x41 = Some True) \<and>
         (\<not> sel_mbSymbolic s \<longrightarrow>
            ParseCMAP create (Some buf) nLength = Some (False, CmapResult_reset))"
proof -
  have "ParseCMAP create (Some buf) nLength = Some (parse_result create s d)"
    using assms by (simp add: ParseCMAP_def parse_subtables_def sdiv_nonneg)
  moreover have "parse_result create s d =
      (if sel_mbSymbolic s then (True, symbol_fallback_cmap) else (False, CmapResult_reset))"
    using assms(8) by (simp add: parse_result_def symbol_fallback_cmap_def CmapResult_reset_def Let_def)
  ultimately show ?thesis using fallback_has41 by (simp add: symbol_fallback_cmap_def)
qed

theorem ParseCMAP_symbolic_fallback_witness:
  "(24 :: int) \<le> 32 \<and> (0 :: int) < 1 \<and> (1 :: int) \<le> (32 - 24) div 8 \<and>
   GetUShort symbol_only_table 0 = Some 0 \<and> GetUShort symbol_only_table 2 = Some 1 \<and>
   GetUShort unusable_table 0 = Some 0 \<and> GetUShort unusable_table 2 = Some 1 \<and>
   sel_mbSymbolic (selection_init\<lparr>sel_mbSymbolic := True\<rparr>) \<and>
   \<not> sel_mbSymbolic selection_init \<and>
   select_loop symbol_only_table 32 (nat 1) 4 selection_init =
     Some (selection_init\<lparr>sel_mbSymbolic := True\<rparr>) \<and>
   parse_best_subtable symbol_only_table 32 (selection_init\<lparr>sel_mbSymbolic := True\<rparr>) =
     Some decoded_init \<and>
   decoded_range_count decoded_init \<le> 0 \<and>
   ParseCMAP no_converter (Some symbol_only_table) 32 = Some (True, symbol_fallback_cmap) \<and>
   select_loop unusable_table 32 (nat 1) 4 selection_init = Some selection_init \<and>
   parse_best_subtable unusable_table 32 selection_init = Some decoded_init \<and>
   ParseCMAP no_converter (Some unusable_table) 32 = Some (False, CmapResult_reset)"
proof -
  have h: "(24 :: int) \<le> 32" "(0 :: int) < 1" "(1 :: int) \<le> (32 - 24) div 8" by simp_all
  have s1: "GetUShort symbol_only_table 0 = Some 0" "GetUShort symbol_only_table 2 = Some 1"
    by (simp_all add: GetUShort_def byte_at_def symbol_only_table_def)
  have s2: "select_loop symbol_only_table 32 (nat 1) 4 selection_init =
      Some (selection_init\<lparr>sel_mbSymbolic := True\<rparr>)"
    by (simp add: parse_eval symbol_only_table_def)
  have s3: "parse_best_subtable symbol_only_table 32 (selection_init\<lparr>sel_mbSymbolic := True\<rparr>) =
      Some decoded_init"
    by (simp add: parse_best_subtable_def selection_init_def)
  have z: "decoded_range_count decoded_init \<le> 0"
    by (simp add: decoded_range_count_def decoded_init_def)
  have u1: "GetUShort unusable_table 0 = Some 0" "GetUShort unusable_table 2 = Some 1"
    by (simp_all add: GetUShort_def byte_at_def unusable_table_def)
  have u2: "select_loop unusable_table 32 (nat 1) 4 selection_init = Some selection_init"
    by (simp add: parse_eval unusable_table_def)
  have u3: "parse_best_subtable unusable_table 32 selection_init = Some decoded_init"
    by (simp add: parse_best_subtable_def selection_init_def)
  from ParseCMAP_symbolic_fallback [OF h(1) s1 h(2,3) s2 s3 z, of no_converter]
  have a: "ParseCMAP no_converter (Some symbol_only_table) 32 = Some (True, symbol_fallback_cmap)"
    by (simp add: selection_init_def)
  from ParseCMAP_symbolic_fallback [OF h(1) u1 h(2,3) u2 u3 z, of no_converter]
  have b: "ParseCMAP no_converter (Some unusable_table) 32 = Some (False, CmapResult_reset)"
    by (simp add: selection_init_def)
  from s1 u1 s2 s3 z a u2 u3 b show ?thesis by (simp add: selection_init_def)
qed

subsection \<open>A format 4 table with one range\<close>

text \<open>
  C10 (as amended). Parsing a format 4 table that declares two segments, the first with
  start \<open>0x41\<close>, end \<open>0x41\<close>, delta 0 and range offset 0 and the second the last segment
  of the table (whatever its bytes: the parser never reads it), yields exactly one range
  \<open>[0x41, 0x42)\<close> with the direct glyph origin \<open>0x41\<close>; on the map built from the
  result \<open>GetGlyphIndex 0x41\<close> is \<open>0x41\<close> and \<open>HasChar 0x40\<close> is false.
\<close>

theorem ParseCMAP_format4_one_range:
  "ParseCMAP create (Some (format4_table e0 e1 s0 s1 d0 d1 o0 o1)) 44 = Some (True, format4_cmap) \<and>
   cr_mpRangeCodes format4_cmap = Allocated [0x41, 0x42] \<and>
   cr_mnRangeCount format4_cmap = 1 \<and>
   cr_mpStartGlyphs format4_cmap = Some [(0x41 + 0) mod 65536] \<and>
   GetGlyphIndex (ImplFontCharMap_ctor format4_cmap) 0x41 = Some 0x41 \<and>
   HasChar (ImplFontCharMap_ctor format4_cmap) 0x40 = Some False"
  using parse_format4_table [of create e0 e1 s0 s1 d0 d1 o0 o1]
  by (simp add: map_eval format4_cmap_def)

text \<open>
  C10 as stated fails: for the format 4 table whose only segment is \<open>0x41..0x41\<close>
  (\<open>segCountX2 = 2\<close>) the parser decodes \<open>2/2 - 1 = 0\<close> ranges and returns false.
\<close>

theorem ParseCMAP_format4_single_segment_counterexample:
  "GetUShort single_segment_table (12 + 6) = Some 2 \<and>
   ParseCMAP no_converter (Some single_segment_table) 36 = Some (False, CmapResult_reset)"
  by (simp add: parse_eval single_segment_table_def)

subsection \<open>Requests for the default map\<close>

lemma map_nth_append_upt:
  "map ((!) (xs @ ys)) [length xs ..< length xs + length ys] = ys"
  by (rule nth_equalityI) (simp_all add: nth_append)

lemma upt_add_Suc: "[n ..< Suc (n + k)] = n # [Suc n ..< Suc (n + k)]"
  by (simp add: upt_conv_Cons)

lemma GetDefaultMap_requests_store:
  "fst (GetDefaultMap_requests bs h) =
     [length (font_char_maps h) ..< length (font_char_maps h) + length bs] \<and>
   font_char_maps (snd (GetDefaultMap_requests bs h)) =
     font_char_maps h @ [length (impl_objects h) ..< length (impl_objects h) + length bs] \<and>
   impl_objects (snd (GetDefaultMap_requests bs h)) = impl_objects h @ map default_map bs"
proof (induction bs arbitrary: h)
  case Nil
  then show ?case by simp
next
  case (Cons b bs)
  let ?h1 = "snd (GetDefaultMap b h)"
  have h1: "font_char_maps ?h1 = font_char_maps h @ [length (impl_objects h)]"
    "impl_objects ?h1 = impl_objects h @ [default_map b]"
    "fst (GetDefaultMap b h) = length (font_char_maps h)"
    by (simp_all add: GetDefaultMap_def getDefaultMap_def Let_def)
  from Cons.IH [of ?h1] h1 show ?case
    by (simp add: Let_def upt_add_Suc del: upt_Suc)
qed

text \<open>
  C2 (as amended). Every request for the default map constructs a new map. For any
  requests made one after another from any store, whatever their kinds: the objects the
  returned handles refer to are pairwise different, there is one handle for each
  request, the store has as many more objects as there were requests, and the object of
  each handle is the default map of the kind that was requested. In particular two
  requests of the kinds \<open>b1\<close> and \<open>b2\<close>, the same or not, return handles that refer to
  two different objects, the store has two more objects than before, and the objects
  are the default maps of the kinds \<open>b1\<close> and \<open>b2\<close>. Two maps of one kind have the
  same contents and both borrow the static range array of their kind, so
  \<open>isDefaultMap\<close> holds for each.
\<close>

theorem GetDefaultMap_distinct:
  "distinct (map (mpImplFontCharMap (snd (GetDefaultMap_requests bs h)))
               (fst (GetDefaultMap_requests bs h))) \<and>
   length (fst (GetDefaultMap_requests bs h)) = length bs \<and>
   length (impl_objects (snd (GetDefaultMap_requests bs h))) = length (impl_objects h) + length bs \<and>
   map (\<lambda>xFontCharMap. impl_at (snd (GetDefaultMap_requests bs h))
          (mpImplFontCharMap (snd (GetDefaultMap_requests bs h)) xFontCharMap))
     (fst (GetDefaultMap_requests bs h)) = map default_map bs \<and>
   mpImplFontCharMap (snd (GetDefaultMap b2 (snd (GetDefaultMap b1 h)))) (fst (GetDefaultMap b1 h)) \<noteq>
   mpImplFontCharMap (snd (GetDefaultMap b2 (snd (GetDefaultMap b1 h))))
     (fst (GetDefaultMap b2 (snd (GetDefaultMap b1 h)))) \<and>
   length (impl_objects (snd (GetDefaultMap b2 (snd (GetDefaultMap b1 h))))) =
     length (impl_objects h) + 2 \<and>
   impl_at (snd (GetDefaultMap b2 (snd (GetDefaultMap b1 h))))
     (mpImplFontCharMap (snd (GetDefaultMap b2 (snd (GetDefaultMap b1 h)))) (fst (GetDefaultMap b1 h))) =
     default_map b1 \<and>
   impl_at (snd (GetDefaultMap b2 (snd (GetDefaultMap b1 h))))
     (mpImplFontCharMap (snd (GetDefaultMap b2 (snd (GetDefaultMap b1 h))))
        (fst (GetDefaultMap b2 (snd (GetDefaultMap b1 h))))) =
     default_map b2 \<and>
   isDefaultMap (default_map b) \<and>
   mpRangeCodes (default_map b) = (if b then aDefaultSymbolRanges else aDefaultUnicodeRanges)"
proof -
  let ?r = "GetDefaultMap_requests bs h"
  note s = GetDefaultMap_requests_store [of bs h]
  have a: "map (mpImplFontCharMap (snd ?r)) (fst ?r) =
      [length (impl_objects h) ..< length (impl_objects h) + length bs]"
    using s map_nth_append_upt [of "font_char_maps h"
        "[length (impl_objects h) ..< length (impl_objects h) + length bs]"]
    by (simp add: mpImplFontCharMap_def [abs_def])
  have 1: "distinct (map (mpImplFontCharMap (snd ?r)) (fst ?r))" unfolding a by simp
  have 2: "length (fst ?r) = length bs" using s by simp
  have 3: "length (impl_objects (snd ?r)) = length (impl_objects h) + length bs" using s by simp
  have "map (\<lambda>x. impl_at (snd ?r) (mpImplFontCharMap (snd ?r) x)) (fst ?r) =
      map (impl_at (snd ?r)) (map (mpImplFontCharMap (snd ?r)) (fst ?r))" by simp
  also have "\<dots> = map ((!) (impl_objects h @ map default_map bs))
      [length (impl_objects h) ..< length (impl_objects h) + length (map default_map bs)]"
    unfolding a using s by (simp add: impl_at_def [abs_def])
  also have "\<dots> = map default_map bs" by (rule map_nth_append_upt)
  finally have 4: "map (\<lambda>x. impl_at (snd ?r) (mpImplFontCharMap (snd ?r) x)) (fst ?r) =
      map default_map bs" .
  have 5: "mpImplFontCharMap (snd (GetDefaultMap b2 (snd (GetDefaultMap b1 h)))) (fst (GetDefaultMap b1 h)) \<noteq>
   mpImplFontCharMap (snd (GetDefaultMap b2 (snd (GetDefaultMap b1 h))))
     (fst (GetDefaultMap b2 (snd (GetDefaultMap b1 h)))) \<and>
   length (impl_objects (snd (GetDefaultMap b2 (snd (GetDefaultMap b1 h))))) =
     length (impl_objects h) + 2 \<and>
   impl_at (snd (GetDefaultMap b2 (snd (GetDefaultMap b1 h))))
     (mpImplFontCharMap (snd (GetDefaultMap b2 (snd (GetDefaultMap b1 h)))) (fst (GetDefaultMap b1 h))) =
     default_map b1 \<and>
   impl_at (snd (GetDefaultMap b2 (snd (GetDefaultMap b1 h))))
     (mpImplFontCharMap (snd (GetDefaultMap b2 (snd (GetDefaultMap b1 h))))
        (fst (GetDefaultMap b2 (snd (GetDefaultMap b1 h))))) =
     default_map b2"
    by (simp add: GetDefaultMap_def getDefaultMap_def mpImplFontCharMap_def impl_at_def Let_def
        nth_append)
  have 6: "isDefaultMap (default_map b) \<and>
   mpRangeCodes (default_map b) = (if b then aDefaultSymbolRanges else aDefaultUnicodeRanges)"
    by (simp add: isDefaultMap_def default_map_def ImplFontCharMap_ctor_def CmapResult_ctor_def)
  from 1 2 3 4 5 6 show ?thesis by blast
qed

text \<open>
  C2 as stated fails: two requests for the generic default map from the initial store
  construct two objects, at the addresses 0 and 1, and the first handle refers to the
  first and the second handle to the second.
\<close>

theorem GetDefaultMap_twice_counterexample:
  "length (impl_objects (snd (GetDefaultMap False (snd (GetDefaultMap False store_init))))) = 2 \<and>
   mpImplFontCharMap (snd (GetDefaultMap False (snd (GetDefaultMap False store_init))))
     (fst (GetDefaultMap False store_init)) = 0 \<and>
   mpImplFontCharMap (snd (GetDefaultMap False (snd (GetDefaultMap False store_init))))
     (fst (GetDefaultMap False (snd (GetDefaultMap False store_init)))) = 1"
  by (simp add: GetDefaultMap_def getDefaultMap_def mpImplFontCharMap_def store_init_def Let_def)

subsection \<open>Reads stay inside the buffer\<close>

lemma GetSShort_Some:
  assumes "0 \<le> p" and "p + 2 \<le> int (length pCmap)"
  shows "\<exists>v. GetSShort pCmap p = Some v"
proof -
  from assms byte_at_Some [of p pCmap] obtain b0 where b0: "byte_at pCmap p = Some b0" by auto
  from assms byte_at_Some [of "p + 1" pCmap] obtain b1 where b1: "byte_at pCmap (p + 1) = Some b1" by auto
  from b0 b1 show ?thesis by (simp add: GetSShort_def)
qed

lemma GetUInt_Some:
  assumes "0 \<le> p" and "p + 4 \<le> int (length pCmap)"
  shows "\<exists>v. GetUInt pCmap p = Some v"
proof -
  from assms byte_at_Some [of p pCmap] obtain b0 where b0: "byte_at pCmap p = Some b0" by auto
  from assms byte_at_Some [of "p + 1" pCmap] obtain b1 where b1: "byte_at pCmap (p + 1) = Some b1" by auto
  from assms byte_at_Some [of "p + 2" pCmap] obtain b2 where b2: "byte_at pCmap (p + 2) = Some b2" by auto
  from assms byte_at_Some [of "p + 3" pCmap] obtain b3 where b3: "byte_at pCmap (p + 3) = Some b3" by auto
  from b0 b1 b2 b3 show ?thesis by (simp add: GetUInt_def)
qed

lemma select_subtable_Some:
  assumes p: "0 \<le> p" "p + 8 \<le> int (length buf)" and len: "nLength \<le> int (length buf)"
    and inv: "0 \<le> sel_nOffset s"
  shows "\<exists>s'. select_subtable buf nLength p s = Some s' \<and> 0 \<le> sel_nOffset s'"
proof -
  from p GetUShort_Some [of p buf] obtain nPlatform where r1: "GetUShort buf p = Some nPlatform" by auto
  from p GetUShort_Some [of "p + 2" buf] obtain nEncoding where r2: "GetUShort buf (p + 2) = Some nEncoding" by auto
  from p GetUInt_Some [of "p + 4" buf] obtain nTmp where r3: "GetUInt buf (p + 4) = Some nTmp" by auto
  obtain nValue eTmp bSym where ev: "encoding_value (push_bit 8 nPlatform + nEncoding) = (nValue, eTmp, bSym)"
    by (cases "encoding_value (push_bit 8 nPlatform + nEncoding)") auto
  show ?thesis
  proof (cases "nValue \<le> 0")
    case True
    with r1 r2 ev inv show ?thesis by (simp add: select_subtable_def)
  next
    case nv: False
    show ?thesis
    proof (cases "sint nTmp > nLength - 2 \<or> sint nTmp < 0")
      case True
      with r1 r2 r3 ev inv nv show ?thesis by (auto simp: select_subtable_def)
    next
      case False
      then have "0 \<le> sint nTmp" "sint nTmp + 2 \<le> int (length buf)" using len by auto
      with GetUShort_Some [of "sint nTmp" buf] obtain nTmpFormat where
        r4: "GetUShort buf (sint nTmp) = Some nTmpFormat" by auto
      from r1 r2 r3 r4 ev inv nv False \<open>0 \<le> sint nTmp\<close> show ?thesis
        by (auto simp: select_subtable_def Let_def)
    qed
  qed
qed

lemma select_loop_Some:
  "0 \<le> p \<Longrightarrow> p + 8 * int n \<le> int (length buf) \<Longrightarrow> nLength \<le> int (length buf) \<Longrightarrow>
   0 \<le> sel_nOffset s \<Longrightarrow>
   \<exists>s'. select_loop buf nLength n p s = Some s' \<and> 0 \<le> sel_nOffset s'"
proof (induction n arbitrary: p s)
  case 0
  then show ?case by simp
next
  case (Suc n)
  from Suc.prems have "p + 8 \<le> int (length buf)" by simp
  from select_subtable_Some [OF Suc.prems(1) this Suc.prems(3,4)] obtain s1 where
    s1: "select_subtable buf nLength p s = Some s1" "0 \<le> sel_nOffset s1" by auto
  from Suc.prems have "0 \<le> p + 8" "p + 8 + 8 * int n \<le> int (length buf)" by simp_all
  from Suc.IH [OF this Suc.prems(3) s1(2)] s1(1) show ?case by simp
qed

lemma glyph_id_loop_Some:
  "0 \<le> p \<Longrightarrow> p + 2 * int n \<le> int (length buf) \<Longrightarrow>
   \<exists>ids'. glyph_id_loop buf nGlyphDelta n p ids = Some ids'"
proof (induction n arbitrary: p ids)
  case 0
  then show ?case by simp
next
  case (Suc n)
  from Suc.prems GetUShort_Some [of p buf] obtain g where g: "GetUShort buf p = Some g" by auto
  from Suc.prems have "0 \<le> p + 2" "p + 2 + 2 * int n \<le> int (length buf)" by simp_all
  from Suc.IH [OF this] g show ?case by simp
qed

lemma format4_segment_Some:
  assumes i: "0 \<le> i" and base: "0 \<le> pLimitBase" "pLimitBase \<le> pBeginBase" "pBeginBase \<le> pDeltaBase"
      "pDeltaBase \<le> pOffsetBase"
    and fit: "pOffsetBase + 2 * i + 2 \<le> nLength" and len: "nLength \<le> int (length buf)"
  shows "\<exists>r. format4_segment buf nLength pLimitBase pBeginBase pDeltaBase pOffsetBase i d = Some r"
proof -
  from assms GetUShort_Some [of "pBeginBase + 2 * i" buf] obtain cMinChar where
    r1: "GetUShort buf (pBeginBase + 2 * i) = Some cMinChar" by auto
  from assms GetUShort_Some [of "pLimitBase + 2 * i" buf] obtain cMaxChar where
    r2: "GetUShort buf (pLimitBase + 2 * i) = Some cMaxChar" by auto
  from assms GetSShort_Some [of "pDeltaBase + 2 * i" buf] obtain nGlyphDelta where
    r3: "GetSShort buf (pDeltaBase + 2 * i) = Some nGlyphDelta" by auto
  from assms GetUShort_Some [of "pOffsetBase + 2 * i" buf] obtain nRangeOffset where
    r4: "GetUShort buf (pOffsetBase + 2 * i) = Some nRangeOffset" "0 \<le> nRangeOffset" by auto
  define ptr where "ptr = pOffsetBase + 2 * i + nRangeOffset"
  define nRemainingSize where "nRemainingSize = (if nLength \<ge> ptr then nLength - ptr else 0)"
  define nMax where "nMax = nRemainingSize div 2"
  have ptr0: "0 \<le> ptr" using i base r4(2) by (simp add: ptr_def)
  show ?thesis
  proof (cases "cMinChar > cMaxChar \<or> cMaxChar = 0xFFFF \<or> nRangeOffset = 0 \<or> nMax = 0 \<or>
      cMaxChar > cMinChar + nMax - 1")
    case True
    with r1 r2 r3 r4 show ?thesis
      by (auto simp: format4_segment_def Let_def ptr_def nRemainingSize_def nMax_def)
  next
    case False
    then have c: "cMinChar \<le> cMaxChar" "cMaxChar \<le> cMinChar + nMax - 1" "nMax \<noteq> 0" by auto
    have "2 * nMax \<le> nRemainingSize" unfolding nMax_def by simp
    moreover from c have "nRemainingSize \<noteq> 0" by (auto simp: nMax_def)
    ultimately have "ptr + 2 * nMax \<le> nLength" by (auto simp: nRemainingSize_def split: if_splits)
    with c len have "ptr + 2 * int (nat (cMaxChar - cMinChar + 1)) \<le> int (length buf)" by simp
    from glyph_id_loop_Some [OF ptr0 this] obtain ids where
      g: "glyph_id_loop buf nGlyphDelta (nat (cMaxChar - cMinChar + 1)) ptr (d_aGlyphIdArray d) = Some ids"
      by blast
    from r1 r2 r3 r4 False g show ?thesis
      by (auto simp: format4_segment_def Let_def ptr_def nRemainingSize_def nMax_def)
  qed
qed

lemma GetUShort_range: "GetUShort buf p = Some v \<Longrightarrow> 0 \<le> v \<and> v < 65536"
proof -
  assume a: "GetUShort buf p = Some v"
  then obtain b0 b1 where b: "byte_at buf p = Some b0" "byte_at buf (p + 1) = Some b1"
    "v = push_bit 8 b0 OR b1"
    by (auto simp: GetUShort_def split: Option.bind_splits)
  from b(1) have b0: "0 \<le> b0" "b0 < 256"
    using uint_lt2p [of "buf ! nat p"] by (auto simp: byte_at_def split: if_splits)
  from b(2) have b1: "0 \<le> b1" "b1 < 256"
    using uint_lt2p [of "buf ! nat (p + 1)"] by (auto simp: byte_at_def split: if_splits)
  have "push_bit 8 b0 OR b1 < 2 ^ 16"
    using b0 b1 by (intro OR_upper) (simp_all add: push_bit_eq_mult)
  moreover have "0 \<le> push_bit 8 b0 OR b1" using b0 b1 by simp
  ultimately show ?thesis using b(3) by simp
qed

lemma pairs_of_append2:
  "even (length xs) \<Longrightarrow> pairs_of (xs @ [a, b]) = pairs_of xs @ [(a, b)]"
  by (induction xs rule: pairs_of.induct) simp_all

lemma word_of_int_lt_succ:
  assumes "0 \<le> cMin" "cMin \<le> cMax" "cMax < 65535"
  shows "(word_of_int cMin :: 32 word) < word_of_int cMax + 1"
proof -
  have "(word_of_int cMax + 1 :: 32 word) = word_of_int (cMax + 1)" by simp
  moreover have "uint (word_of_int cMin :: 32 word) = cMin"
    using assms by (simp add: uint_word_of_int take_bit_int_eq_self)
  moreover have "uint (word_of_int (cMax + 1) :: 32 word) = cMax + 1"
    unfolding uint_word_of_int using assms by (simp add: take_bit_int_eq_self)
  ultimately show ?thesis using assms by (simp only: word_less_def)
qed

lemma glyph_id_loop_nonempty:
  "glyph_id_loop buf nGlyphDelta n p ids = Some ids' \<Longrightarrow> ids \<noteq> [] \<Longrightarrow> ids' \<noteq> []"
  by (induction n arbitrary: p ids) (auto split: option.splits)

lemma format4_segment_Next:
  assumes "format4_segment buf nLength pLimitBase pBeginBase pDeltaBase pOffsetBase i d = Some (Next d')"
  shows "\<exists>a b g. d_pCodePairs d' = d_pCodePairs d @ [a, b] \<and> a < b \<and>
           d_pStartGlyphs d' = d_pStartGlyphs d @ [g] \<and>
           (d_aGlyphIdArray d \<noteq> [] \<longrightarrow> d_aGlyphIdArray d' \<noteq> [])"
proof -
  from assms obtain cMinChar cMaxChar nGlyphDelta nRangeOffset where
    r: "GetUShort buf (pBeginBase + 2 * i) = Some cMinChar"
       "GetUShort buf (pLimitBase + 2 * i) = Some cMaxChar"
       "GetSShort buf (pDeltaBase + 2 * i) = Some nGlyphDelta"
       "GetUShort buf (pOffsetBase + 2 * i) = Some nRangeOffset"
    by (auto simp: format4_segment_def split: Option.bind_splits)
  from assms r have c: "cMinChar \<le> cMaxChar" "cMaxChar \<noteq> 0xFFFF"
    by (auto simp: format4_segment_def split: if_splits)
  from GetUShort_range [OF r(1)] GetUShort_range [OF r(2)] c
  have lt: "(word_of_int cMinChar :: 32 word) < word_of_int cMaxChar + 1"
    by (intro word_of_int_lt_succ) auto
  from assms r c have "d_pCodePairs d' = d_pCodePairs d @ [word_of_int cMinChar, word_of_int cMaxChar + 1] \<and>
      (\<exists>g. d_pStartGlyphs d' = d_pStartGlyphs d @ [g]) \<and>
      (d_aGlyphIdArray d \<noteq> [] \<longrightarrow> d_aGlyphIdArray d' \<noteq> [])"
    by (auto simp: format4_segment_def Let_def split: if_splits Option.bind_splits
        dest: glyph_id_loop_nonempty)
  with lt show ?thesis by blast
qed

lemma pairs_lt_append2:
  "even (length xs) \<Longrightarrow> pairs_lt xs \<Longrightarrow> a < b \<Longrightarrow> pairs_lt (xs @ [a, b])"
  by (simp add: pairs_lt_def pairs_of_append2)

lemma format4_loop_inv:
  "format4_loop buf nLength pLimitBase pBeginBase pDeltaBase pOffsetBase n i d = Some d' \<Longrightarrow>
   decoded_ok d \<Longrightarrow> pairs_lt (d_pCodePairs d) \<Longrightarrow>
   decoded_ok d' \<and> pairs_lt (d_pCodePairs d') \<and>
   length (d_pStartGlyphs d') \<le> length (d_pStartGlyphs d) + n"
proof (induction n arbitrary: i d)
  case 0
  then show ?case by simp
next
  case (Suc n)
  show ?case
  proof (cases "format4_segment buf nLength pLimitBase pBeginBase pDeltaBase pOffsetBase i d")
    case None
    with Suc.prems show ?thesis by simp
  next
    case (Some r)
    show ?thesis
    proof (cases r)
      case Break
      with Some Suc.prems show ?thesis by simp
    next
      case (Next d1)
      from format4_segment_Next [OF Some [unfolded Next]] obtain a b g where
        s: "d_pCodePairs d1 = d_pCodePairs d @ [a, b]" "a < b"
           "d_pStartGlyphs d1 = d_pStartGlyphs d @ [g]"
           "d_aGlyphIdArray d \<noteq> [] \<longrightarrow> d_aGlyphIdArray d1 \<noteq> []" by blast
      from Suc.prems(2) have ev: "even (length (d_pCodePairs d))" by (simp add: decoded_ok_def)
      have ok1: "decoded_ok d1" using Suc.prems(2) s by (simp add: decoded_ok_def)
      have lt1: "pairs_lt (d_pCodePairs d1)"
        unfolding s(1) by (rule pairs_lt_append2 [OF ev Suc.prems(3) s(2)])
      from Suc.prems(1) Some Next have
        "format4_loop buf nLength pLimitBase pBeginBase pDeltaBase pOffsetBase n (i + 1) d1 = Some d'"
        by simp
      from Suc.IH [OF this ok1 lt1] s(3) show ?thesis by simp
    qed
  qed
qed

lemma format4_loop_Some:
  "0 \<le> i \<Longrightarrow> 0 \<le> pLimitBase \<Longrightarrow> pLimitBase \<le> pBeginBase \<Longrightarrow> pBeginBase \<le> pDeltaBase \<Longrightarrow>
   pDeltaBase \<le> pOffsetBase \<Longrightarrow> pOffsetBase + 2 * (i + int n) \<le> nLength \<Longrightarrow>
   nLength \<le> int (length buf) \<Longrightarrow>
   \<exists>d'. format4_loop buf nLength pLimitBase pBeginBase pDeltaBase pOffsetBase n i d = Some d'"
proof (induction n arbitrary: i d)
  case 0
  then show ?case by simp
next
  case (Suc n)
  from Suc.prems have "pOffsetBase + 2 * i + 2 \<le> nLength" by simp
  from format4_segment_Some [OF Suc.prems(1-5) this Suc.prems(7), of d] obtain r where
    r: "format4_segment buf nLength pLimitBase pBeginBase pDeltaBase pOffsetBase i d = Some r" by blast
  show ?case
  proof (cases r)
    case Break
    with r show ?thesis by simp
  next
    case (Next d1)
    from Suc.prems have "0 \<le> i + 1" "pOffsetBase + 2 * (i + 1 + int n) \<le> nLength" by simp_all
    from Suc.IH [OF this(1) Suc.prems(2-5) this(2) Suc.prems(7), of d1] r Next show ?thesis by simp
  qed
qed

lemma format4_range_count_clamped:
  "0 \<le> format4_range_count nLength nOffset nSegCountX2 \<and>
   format4_range_count nLength nOffset nSegCountX2 \<le> max 0 (nSegCountX2 sdiv 2 - 1)"
  by (auto simp: format4_range_count_def Let_def)

lemma format4_range_count_fits:
  assumes "0 < format4_range_count nLength nOffset nSegCountX2"
  shows "nOffset + 14 + nSegCountX2 + 2 + nSegCountX2 + nSegCountX2
           + 2 * format4_range_count nLength nOffset nSegCountX2 \<le> nLength"
proof -
  define rem where "rem = nLength - (nOffset + 14 + nSegCountX2 + 2 + nSegCountX2 + nSegCountX2)"
  from assms have le: "format4_range_count nLength nOffset nSegCountX2 \<le> rem sdiv 2"
    by (auto simp: format4_range_count_def Let_def rem_def split: if_splits)
  with assms have pos: "0 < rem sdiv 2" by simp
  have "0 \<le> rem"
  proof (rule ccontr)
    assume "\<not> 0 \<le> rem"
    then have "rem sdiv 2 \<le> 0" by (simp add: signed_divide_int_def sgn_if)
    with pos show False by simp
  qed
  then have "rem sdiv 2 = rem div 2" by (simp add: sdiv_nonneg)
  with le have "2 * format4_range_count nLength nOffset nSegCountX2 \<le> rem" by simp
  then show ?thesis by (simp add: rem_def)
qed

lemma decoded_init_ok: "decoded_ok decoded_init" "pairs_lt (d_pCodePairs decoded_init)"
  by (simp_all add: decoded_ok_def decoded_init_def pairs_lt_def)

lemma decoded_range_count_ok: "decoded_ok d \<Longrightarrow> decoded_range_count d = int (length (d_pStartGlyphs d))"
  by (simp add: decoded_ok_def decoded_range_count_def sdiv_nonneg)

lemma parse_format4_Some:
  assumes off: "0 \<le> nOffset" "nOffset + 16 < nLength" and len: "nLength \<le> int (length buf)"
  shows "\<exists>d. parse_format4 buf nLength nOffset = Some d"
proof -
  from assms GetUShort_Some [of "nOffset + 6" buf] obtain X where
    x: "GetUShort buf (nOffset + 6) = Some X" "0 \<le> X" by auto
  let ?rc = "format4_range_count nLength nOffset X"
  let ?loop = "format4_loop buf nLength (nOffset + 14) (nOffset + 14 + X + 2)
      (nOffset + 14 + X + 2 + X) (nOffset + 14 + X + 2 + X + X) (nat ?rc) 0 decoded_init"
  have "\<exists>d. ?loop = Some d"
  proof (cases "0 < ?rc")
    case True
    from format4_range_count_fits [OF True] True
    have fit: "nOffset + 14 + X + 2 + X + X + 2 * (0 + int (nat ?rc)) \<le> nLength" by simp
    show ?thesis
      by (rule format4_loop_Some [OF _ _ _ _ _ fit len]) (use off x in simp_all)
  next
    case False
    then have "nat ?rc = 0" by simp
    then show ?thesis by simp
  qed
  with x show ?thesis by (simp add: parse_format4_def Let_def)
qed

lemma parse_format4_inv:
  assumes "GetUShort buf (nOffset + 6) = Some X" and "parse_format4 buf nLength nOffset = Some d"
  shows "decoded_ok d" and "pairs_lt (d_pCodePairs d)"
    and "decoded_range_count d \<le> format4_range_count nLength nOffset X"
proof -
  from assms have l: "format4_loop buf nLength (nOffset + 14) (nOffset + 14 + X + 2)
      (nOffset + 14 + X + 2 + X) (nOffset + 14 + X + 2 + X + X)
      (nat (format4_range_count nLength nOffset X)) 0 decoded_init = Some d"
    by (simp add: parse_format4_def Let_def)
  note i = format4_loop_inv [OF l decoded_init_ok]
  from i show "decoded_ok d" and "pairs_lt (d_pCodePairs d)" by simp_all
  from i have "length (d_pStartGlyphs d) \<le> nat (format4_range_count nLength nOffset X)"
    by (simp add: decoded_init_def)
  with format4_range_count_clamped [of nLength nOffset X]
  have "int (length (d_pStartGlyphs d)) \<le> format4_range_count nLength nOffset X" by linarith
  with i show "decoded_range_count d \<le> format4_range_count nLength nOffset X"
    by (simp add: decoded_range_count_ok)
qed

lemma format12_group_Some:
  assumes "0 \<le> pGroup" and "pGroup + 12 \<le> int (length buf)"
  shows "\<exists>r. format12_group buf pGroup d = Some r"
proof -
  from assms GetUInt_Some [of "pGroup + 0" buf] obtain a where a: "GetUInt buf (pGroup + 0) = Some a" by auto
  from assms GetUInt_Some [of "pGroup + 4" buf] obtain b where b: "GetUInt buf (pGroup + 4) = Some b" by auto
  from assms GetUInt_Some [of "pGroup + 8" buf] obtain c where c: "GetUInt buf (pGroup + 8) = Some c" by auto
  from a b c show ?thesis by (simp add: format12_group_def Let_def)
qed

lemma format12_group_Next:
  assumes "format12_group buf pGroup d = Some (Next d')"
  shows "\<exists>a b g. d_pCodePairs d' = d_pCodePairs d @ [a, b] \<and>
           d_pStartGlyphs d' = d_pStartGlyphs d @ [g] \<and> d_aGlyphIdArray d' = d_aGlyphIdArray d"
  using assms by (auto simp: format12_group_def Let_def split: Option.bind_splits if_splits)

lemma format12_loop_Some:
  "0 \<le> pGroup \<Longrightarrow> pGroup + 12 * int n \<le> int (length buf) \<Longrightarrow>
   \<exists>d'. format12_loop buf n pGroup d = Some d'"
proof (induction n arbitrary: pGroup d)
  case 0
  then show ?case by simp
next
  case (Suc n)
  from Suc.prems have "pGroup + 12 \<le> int (length buf)" by simp
  from format12_group_Some [OF Suc.prems(1) this, of d] obtain r where
    r: "format12_group buf pGroup d = Some r" by blast
  show ?case
  proof (cases r)
    case Break
    with r show ?thesis by simp
  next
    case (Next d1)
    from Suc.prems have "0 \<le> pGroup + 12" "pGroup + 12 + 12 * int n \<le> int (length buf)" by simp_all
    from Suc.IH [OF this, of d1] r Next show ?thesis by simp
  qed
qed

lemma format12_loop_inv:
  "format12_loop buf n pGroup d = Some d' \<Longrightarrow> decoded_ok d \<Longrightarrow>
   decoded_ok d' \<and> length (d_pStartGlyphs d') \<le> length (d_pStartGlyphs d) + n"
proof (induction n arbitrary: pGroup d)
  case 0
  then show ?case by simp
next
  case (Suc n)
  show ?case
  proof (cases "format12_group buf pGroup d")
    case None
    with Suc.prems show ?thesis by simp
  next
    case (Some r)
    show ?thesis
    proof (cases r)
      case Break
      with Some Suc.prems show ?thesis by simp
    next
      case (Next d1)
      from format12_group_Next [OF Some [unfolded Next]] obtain a b g where
        s: "d_pCodePairs d1 = d_pCodePairs d @ [a, b]"
           "d_pStartGlyphs d1 = d_pStartGlyphs d @ [g]"
           "d_aGlyphIdArray d1 = d_aGlyphIdArray d" by blast
      have ok1: "decoded_ok d1" using Suc.prems(2) s by (simp add: decoded_ok_def)
      from Suc.prems(1) Some Next have "format12_loop buf n (pGroup + 12) d1 = Some d'" by simp
      from Suc.IH [OF this ok1] s(2) show ?thesis by simp
    qed
  qed
qed

lemma format12_range_count_clamped:
  "0 \<le> format12_range_count nLength nOffset nGroups \<and>
   format12_range_count nLength nOffset nGroups \<le> max 0 (sint nGroups)"
  by (auto simp: format12_range_count_def Let_def)

lemma format12_range_count_fits:
  assumes "nOffset + 16 < nLength"
  shows "nOffset + 16 + 12 * format12_range_count nLength nOffset nGroups \<le> nLength"
proof -
  define rem where "rem = nLength - (nOffset + 16)"
  from assms have r: "0 \<le> rem" by (simp add: rem_def)
  then have d: "rem sdiv 12 = rem div 12" by (simp add: sdiv_nonneg)
  have "format12_range_count nLength nOffset nGroups \<le> rem div 12"
    using r d by (auto simp: format12_range_count_def Let_def rem_def)
  then have "12 * format12_range_count nLength nOffset nGroups \<le> rem" by simp
  then show ?thesis by (simp add: rem_def)
qed

lemma parse_format12_Some:
  assumes off: "0 \<le> nOffset" "nOffset + 16 < nLength" and len: "nLength \<le> int (length buf)"
  shows "\<exists>d. parse_format12 buf nLength nOffset = Some d"
proof -
  from assms GetUInt_Some [of "nOffset + 12" buf] obtain G where
    g: "GetUInt buf (nOffset + 12) = Some G" by auto
  let ?rc = "format12_range_count nLength nOffset G"
  from format12_range_count_fits [OF off(2), of G] format12_range_count_clamped [of nLength nOffset G] len
  have "nOffset + 16 + 12 * int (nat ?rc) \<le> int (length buf)" by simp
  from format12_loop_Some [OF _ this, of decoded_init] off
  obtain d where "format12_loop buf (nat ?rc) (nOffset + 16) decoded_init = Some d" by auto
  with g show ?thesis by (simp add: parse_format12_def Let_def)
qed

lemma parse_format12_inv:
  assumes "GetUInt buf (nOffset + 12) = Some G" and "parse_format12 buf nLength nOffset = Some d"
  shows "decoded_ok d"
    and "decoded_range_count d \<le> format12_range_count nLength nOffset G"
proof -
  from assms have l: "format12_loop buf (nat (format12_range_count nLength nOffset G))
      (nOffset + 16) decoded_init = Some d"
    by (simp add: parse_format12_def Let_def)
  note i = format12_loop_inv [OF l decoded_init_ok(1)]
  from i show "decoded_ok d" by simp
  from i have "length (d_pStartGlyphs d) \<le> nat (format12_range_count nLength nOffset G)"
    by (simp add: decoded_init_def)
  with format12_range_count_clamped [of nLength nOffset G]
  have "int (length (d_pStartGlyphs d)) \<le> format12_range_count nLength nOffset G" by linarith
  with i show "decoded_range_count d \<le> format12_range_count nLength nOffset G"
    by (simp add: decoded_range_count_ok)
qed

lemma parse_best_subtable_Some:
  assumes "0 \<le> sel_nOffset s" and "nLength \<le> int (length buf)"
  shows "\<exists>d. parse_best_subtable buf nLength s = Some d"
proof (cases "sel_nOffset s + 16 < nLength")
  case True
  from parse_format4_Some [OF assms(1) True assms(2)] parse_format12_Some [OF assms(1) True assms(2)]
  show ?thesis by (simp add: parse_best_subtable_def)
next
  case False
  then show ?thesis by (simp add: parse_best_subtable_def)
qed

lemma parse_best_subtable_ok:
  assumes "parse_best_subtable buf nLength s = Some d"
  shows "decoded_ok d"
proof (cases "sel_nFormat s = 4 \<and> sel_nOffset s + 16 < nLength")
  case True
  with assms have f4: "parse_format4 buf nLength (sel_nOffset s) = Some d"
    by (simp add: parse_best_subtable_def)
  then obtain X where "GetUShort buf (sel_nOffset s + 6) = Some X"
    by (auto simp: parse_format4_def split: Option.bind_splits)
  from parse_format4_inv(1) [OF this f4] show ?thesis .
next
  case n4: False
  show ?thesis
  proof (cases "sel_nFormat s = 12 \<and> sel_nOffset s + 16 < nLength")
    case True
    with assms n4 have f12: "parse_format12 buf nLength (sel_nOffset s) = Some d"
      by (simp add: parse_best_subtable_def)
    then obtain G where "GetUInt buf (sel_nOffset s + 12) = Some G"
      by (auto simp: parse_format12_def split: Option.bind_splits)
    from parse_format12_inv(1) [OF this f12] show ?thesis .
  next
    case False
    with assms n4 have "decoded_init = d" by (simp add: parse_best_subtable_def)
    with decoded_init_ok(1) show ?thesis by simp
  qed
qed

lemma parse_subtables_Some:
  assumes "0 < nSubTables" and "nSubTables \<le> (nLength - 24) div 8" and "nLength \<le> int (length buf)"
  shows "parse_subtables create buf nLength nSubTables \<noteq> None"
proof -
  from assms have "4 + 8 * int (nat nSubTables) \<le> int (length buf)" by simp
  from select_loop_Some [OF _ this assms(3), of selection_init]
  obtain s where s: "select_loop buf nLength (nat nSubTables) 4 selection_init = Some s"
    "0 \<le> sel_nOffset s" by (auto simp: selection_init_def)
  from parse_best_subtable_Some [OF s(2) assms(3)] obtain d where
    "parse_best_subtable buf nLength s = Some d" by blast
  with s show ?thesis by (simp add: parse_subtables_def)
qed

lemma ParseCMAP_Some:
  assumes "nLength \<le> int (length buf)"
  shows "ParseCMAP create (Some buf) nLength \<noteq> None"
proof (cases "nLength < 24")
  case True
  then show ?thesis by (simp add: ParseCMAP_def)
next
  case False
  with assms GetUShort_Some [of 0 buf] obtain v where v: "GetUShort buf 0 = Some v" by auto
  from False assms GetUShort_Some [of 2 buf] obtain n where n: "GetUShort buf 2 = Some n" by auto
  show ?thesis
  proof (cases "v \<noteq> 0 \<or> n \<le> 0 \<or> n > (nLength - 24) sdiv 8")
    case True
    with False v n show ?thesis by (auto simp: ParseCMAP_def)
  next
    case ok: False
    with False have "0 < n" "n \<le> (nLength - 24) div 8" by (simp_all add: sdiv_nonneg)
    from parse_subtables_Some [OF this assms, of create] False v n ok show ?thesis
      by (auto simp: ParseCMAP_def)
  qed
qed

lemma parse_skipped: "ParseCMAP create (Some skipped_subtable_table) 52 = Some (True, format4_cmap)"
  by (simp add: parse_eval skipped_subtable_table_def format4_cmap_def)

lemma select_subtable_skips:
  assumes "GetUShort pCmap p = Some nPlatform" and "GetUShort pCmap (p + 2) = Some nEncoding"
    and "GetUInt pCmap (p + 4) = Some nTmp" and "sint nTmp < 0 \<or> nLength - 2 < sint nTmp"
  shows "select_subtable pCmap nLength p s =
     Some (if snd (snd (encoding_value (push_bit 8 nPlatform + nEncoding)))
           then s\<lparr>sel_mbSymbolic := True\<rparr> else s)"
proof -
  obtain nValue eTmp bSym where ev: "encoding_value (push_bit 8 nPlatform + nEncoding) = (nValue, eTmp, bSym)"
    by (cases "encoding_value (push_bit 8 nPlatform + nEncoding)") auto
  with assms show ?thesis by (auto simp: select_subtable_def Let_def)
qed

lemma format4_loop_stops:
  "format4_loop pCmap nLength pLimitBase pBeginBase pDeltaBase pOffsetBase j i d = Some d' \<Longrightarrow>
   length (d_pStartGlyphs d') = length (d_pStartGlyphs d) + j \<Longrightarrow>
   format4_segment pCmap nLength pLimitBase pBeginBase pDeltaBase pOffsetBase (i + int j) d' = Some Break \<Longrightarrow>
   format4_loop pCmap nLength pLimitBase pBeginBase pDeltaBase pOffsetBase (j + Suc n) i d = Some d'"
proof (induction j arbitrary: i d)
  case 0
  then show ?case by simp
next
  case (Suc j)
  show ?case
  proof (cases "format4_segment pCmap nLength pLimitBase pBeginBase pDeltaBase pOffsetBase i d")
    case None
    with Suc.prems(1) show ?thesis by simp
  next
    case (Some r)
    show ?thesis
    proof (cases r)
      case Break
      with Some Suc.prems(1,2) show ?thesis by simp
    next
      case (Next d1)
      from format4_segment_Next [OF Some [unfolded Next]] have
        l1: "length (d_pStartGlyphs d1) = length (d_pStartGlyphs d) + 1" by auto
      from Suc.prems(1) Some Next have
        a: "format4_loop pCmap nLength pLimitBase pBeginBase pDeltaBase pOffsetBase j (i + 1) d1 = Some d'"
        by simp
      from Suc.prems(2) l1 have b: "length (d_pStartGlyphs d') = length (d_pStartGlyphs d1) + j" by simp
      from Suc.prems(3) have c: "format4_segment pCmap nLength pLimitBase pBeginBase pDeltaBase pOffsetBase
          (i + 1 + int j) d' = Some Break" by (simp add: add.assoc)
      from Suc.IH [OF a b c] Some Next show ?thesis by simp
    qed
  qed
qed

lemma format12_loop_stops:
  "format12_loop pCmap j pGroup d = Some d' \<Longrightarrow>
   length (d_pStartGlyphs d') = length (d_pStartGlyphs d) + j \<Longrightarrow>
   format12_group pCmap (pGroup + 12 * int j) d' = Some Break \<Longrightarrow>
   format12_loop pCmap (j + Suc n) pGroup d = Some d'"
proof (induction j arbitrary: pGroup d)
  case 0
  then show ?case by simp
next
  case (Suc j)
  show ?case
  proof (cases "format12_group pCmap pGroup d")
    case None
    with Suc.prems(1) show ?thesis by simp
  next
    case (Some r)
    show ?thesis
    proof (cases r)
      case Break
      with Some Suc.prems(1,2) show ?thesis by simp
    next
      case (Next d1)
      from format12_group_Next [OF Some [unfolded Next]] have
        l1: "length (d_pStartGlyphs d1) = length (d_pStartGlyphs d) + 1" by auto
      from Suc.prems(1) Some Next have
        a: "format12_loop pCmap j (pGroup + 12) d1 = Some d'" by simp
      from Suc.prems(2) l1 have b: "length (d_pStartGlyphs d') = length (d_pStartGlyphs d1) + j" by simp
      from Suc.prems(3) have c: "format12_group pCmap (pGroup + 12 + 12 * int j) d' = Some Break"
        by (simp add: algebra_simps)
      from Suc.IH [OF a b c] Some Next show ?thesis by simp
    qed
  qed
qed

lemma parse_format4_truncated:
  assumes x: "GetUShort pCmap (nOffset + 6) = Some nSegCountX2"
    and l: "format4_loop pCmap nLength (nOffset + 14) (nOffset + 14 + nSegCountX2 + 2)
              (nOffset + 14 + nSegCountX2 + 2 + nSegCountX2)
              (nOffset + 14 + nSegCountX2 + 2 + nSegCountX2 + nSegCountX2) j 0 decoded_init = Some d"
    and len: "length (d_pStartGlyphs d) = j"
    and j: "int j < format4_range_count nLength nOffset nSegCountX2"
    and b: "format4_segment pCmap nLength (nOffset + 14) (nOffset + 14 + nSegCountX2 + 2)
              (nOffset + 14 + nSegCountX2 + 2 + nSegCountX2)
              (nOffset + 14 + nSegCountX2 + 2 + nSegCountX2 + nSegCountX2) (int j) d = Some Break"
  shows "parse_format4 pCmap nLength nOffset = Some d"
proof -
  from j have "j < nat (format4_range_count nLength nOffset nSegCountX2)" by simp
  then obtain n where "nat (format4_range_count nLength nOffset nSegCountX2) = Suc (j + n)"
    by (auto dest: less_imp_Suc_add)
  then have n: "nat (format4_range_count nLength nOffset nSegCountX2) = j + Suc n" by simp
  from len have len': "length (d_pStartGlyphs d) = length (d_pStartGlyphs decoded_init) + j"
    by (simp add: decoded_init_def)
  from b have b': "format4_segment pCmap nLength (nOffset + 14) (nOffset + 14 + nSegCountX2 + 2)
              (nOffset + 14 + nSegCountX2 + 2 + nSegCountX2)
              (nOffset + 14 + nSegCountX2 + 2 + nSegCountX2 + nSegCountX2) (0 + int j) d = Some Break" by simp
  from format4_loop_stops [OF l len' b', of n] x n show ?thesis
    by (simp add: parse_format4_def Let_def)
qed

lemma parse_format12_truncated:
  assumes x: "GetUInt pCmap (nOffset + 12) = Some nGroups"
    and l: "format12_loop pCmap j (nOffset + 16) decoded_init = Some d"
    and len: "length (d_pStartGlyphs d) = j"
    and j: "int j < format12_range_count nLength nOffset nGroups"
    and b: "format12_group pCmap (nOffset + 16 + 12 * int j) d = Some Break"
  shows "parse_format12 pCmap nLength nOffset = Some d"
proof -
  from j have "j < nat (format12_range_count nLength nOffset nGroups)" by simp
  then obtain n where "nat (format12_range_count nLength nOffset nGroups) = Suc (j + n)"
    by (auto dest: less_imp_Suc_add)
  then have n: "nat (format12_range_count nLength nOffset nGroups) = j + Suc n" by simp
  from len have len': "length (d_pStartGlyphs d) = length (d_pStartGlyphs decoded_init) + j"
    by (simp add: decoded_init_def)
  from format12_loop_stops [OF l len' b, of n] x n show ?thesis
    by (simp add: parse_format12_def Let_def)
qed

lemma select_loop_skips:
  assumes "GetUShort pCmap p = Some nPlatform" and "GetUShort pCmap (p + 2) = Some nEncoding"
    and "GetUInt pCmap (p + 4) = Some nTmp" and "sint nTmp < 0 \<or> nLength - 2 < sint nTmp"
  shows "select_loop pCmap nLength (Suc n) p s =
     select_loop pCmap nLength n (p + 8)
       (if snd (snd (encoding_value (push_bit 8 nPlatform + nEncoding)))
        then s\<lparr>sel_mbSymbolic := True\<rparr> else s)"
  using select_subtable_skips [OF assms, of s] by simp

lemma ParseCMAP_parse_result:
  assumes "24 \<le> nLength" and "GetUShort pCmap 0 = Some 0" and "GetUShort pCmap 2 = Some nSubTables"
    and "0 < nSubTables" and "nSubTables \<le> (nLength - 24) div 8"
    and "select_loop pCmap nLength (nat nSubTables) 4 selection_init = Some s"
    and "parse_best_subtable pCmap nLength s = Some d"
  shows "ParseCMAP create (Some pCmap) nLength = Some (parse_result create s d)"
  using assms by (simp add: ParseCMAP_def parse_subtables_def sdiv_nonneg)

lemma parse_result_decoded:
  assumes "decoded_ok d" and "d_pCodePairs d \<noteq> []" and "sel_eRecodeFrom s = RTL_TEXTENCODING_UNICODE"
  shows "parse_result create s d =
    (True, \<lparr>cr_mpRangeCodes = Allocated (d_pCodePairs d), cr_mpStartGlyphs = Some (d_pStartGlyphs d),
             cr_mpGlyphIds = Some (d_aGlyphIdArray d), cr_mnRangeCount = int (length (d_pStartGlyphs d)),
             cr_mbSymbolic = sel_mbSymbolic s, cr_mbRecoded = False\<rparr>)"
proof -
  from assms(1) have c: "decoded_range_count d = int (length (d_pStartGlyphs d))"
    by (rule decoded_range_count_ok)
  from assms(1,2) have "0 < length (d_pStartGlyphs d)" by (auto simp: decoded_ok_def)
  with c have pos: "\<not> decoded_range_count d \<le> 0" by simp
  from assms(1) have g: "d_aGlyphIdArray d \<noteq> []" by (simp add: decoded_ok_def)
  from pos c g assms(3) show ?thesis
    by (simp add: parse_result_def CmapResult_reset_def Let_def)
qed

lemma ParseCMAP_decoded:
  assumes h: "24 \<le> nLength" "GetUShort pCmap 0 = Some 0" "GetUShort pCmap 2 = Some nSubTables"
      "0 < nSubTables" "nSubTables \<le> (nLength - 24) div 8"
    and s: "select_loop pCmap nLength (nat nSubTables) 4 selection_init = Some s"
    and off: "sel_nOffset s + 16 < nLength"
    and d: "sel_nFormat s = 4 \<and> parse_format4 pCmap nLength (sel_nOffset s) = Some d \<or>
            sel_nFormat s = 12 \<and> parse_format12 pCmap nLength (sel_nOffset s) = Some d"
    and ne: "d_pCodePairs d \<noteq> []" and u: "sel_eRecodeFrom s = RTL_TEXTENCODING_UNICODE"
  shows "ParseCMAP create (Some pCmap) nLength =
    Some (True, \<lparr>cr_mpRangeCodes = Allocated (d_pCodePairs d), cr_mpStartGlyphs = Some (d_pStartGlyphs d),
             cr_mpGlyphIds = Some (d_aGlyphIdArray d), cr_mnRangeCount = int (length (d_pStartGlyphs d)),
             cr_mbSymbolic = sel_mbSymbolic s, cr_mbRecoded = False\<rparr>)"
proof -
  from d off have b: "parse_best_subtable pCmap nLength s = Some d"
    by (auto simp: parse_best_subtable_def)
  from parse_best_subtable_ok [OF b] have ok: "decoded_ok d" .
  from ParseCMAP_parse_result [OF h s b, of create] parse_result_decoded [OF ok ne u, of create]
  show ?thesis by simp
qed

lemma ParseCMAP_winner_truncated:
  assumes h: "24 \<le> nLength" "GetUShort pCmap 0 = Some 0" "GetUShort pCmap 2 = Some nSubTables"
      "0 < nSubTables" "nSubTables \<le> (nLength - 24) div 8"
    and s: "select_loop pCmap nLength (nat nSubTables) 4 selection_init = Some s"
    and off: "nLength \<le> sel_nOffset s + 16"
  shows "ParseCMAP create (Some pCmap) nLength =
    Some (if sel_mbSymbolic s then (True, symbol_fallback_cmap) else (False, CmapResult_reset))"
proof -
  from off have b: "parse_best_subtable pCmap nLength s = Some decoded_init"
    by (simp add: parse_best_subtable_def)
  have "parse_result create s decoded_init =
      (if sel_mbSymbolic s then (True, symbol_fallback_cmap) else (False, CmapResult_reset))"
    by (simp add: parse_result_def symbol_fallback_cmap_def CmapResult_reset_def Let_def
        decoded_range_count_def decoded_init_def)
  with ParseCMAP_parse_result [OF h s b, of create] show ?thesis by simp
qed

lemma glyph_id_loop_numeral:
  "glyph_id_loop pCmap nGlyphDelta (numeral k) pGlyphIdPtr ids =
     (case GetUShort pCmap pGlyphIdPtr of
        None \<Rightarrow> None
      | Some g \<Rightarrow>
          glyph_id_loop pCmap nGlyphDelta (pred_numeral k) (pGlyphIdPtr + 2)
            (ids @ [word_of_int (g + nGlyphDelta)]))"
  by (simp add: numeral_eq_Suc)

lemma glyph_id_loop_length:
  "glyph_id_loop pCmap nGlyphDelta n p ids = Some ids' \<Longrightarrow> length ids' = length ids + n"
  by (induction n arbitrary: p ids) (auto split: option.splits)

lemma format4_segment_glyphs:
  assumes r: "GetUShort pCmap (pBeginBase + 2 * i) = Some cMinChar"
      "GetUShort pCmap (pLimitBase + 2 * i) = Some cMaxChar"
      "GetUShort pCmap (pOffsetBase + 2 * i) = Some nRangeOffset"
    and nz: "nRangeOffset \<noteq> 0"
    and seg: "format4_segment pCmap nLength pLimitBase pBeginBase pDeltaBase pOffsetBase i d = Some (Next d')"
  shows "length (d_aGlyphIdArray d') = length (d_aGlyphIdArray d) + nat (cMaxChar - cMinChar + 1)"
    and "pOffsetBase + 2 * i + nRangeOffset + 2 * (cMaxChar - cMinChar + 1) \<le> nLength"
proof -
  define ptr where "ptr = pOffsetBase + 2 * i + nRangeOffset"
  define nRemainingSize where "nRemainingSize = (if nLength \<ge> ptr then nLength - ptr else 0)"
  define nMax where "nMax = nRemainingSize div 2"
  from seg r obtain nGlyphDelta where d: "GetSShort pCmap (pDeltaBase + 2 * i) = Some nGlyphDelta"
    by (auto simp: format4_segment_def split: Option.bind_splits)
  from seg r d nz have c: "cMinChar \<le> cMaxChar" "nMax \<noteq> 0" "cMaxChar \<le> cMinChar + nMax - 1"
    by (auto simp: format4_segment_def Let_def ptr_def nRemainingSize_def nMax_def split: if_splits)
  from seg r d nz c obtain ids where
    g: "glyph_id_loop pCmap nGlyphDelta (nat (cMaxChar - cMinChar + 1)) ptr (d_aGlyphIdArray d) = Some ids"
    and d': "d_aGlyphIdArray d' = ids"
    by (auto simp: format4_segment_def Let_def ptr_def nRemainingSize_def nMax_def
        split: if_splits Option.bind_splits)
  from glyph_id_loop_length [OF g] d'
  show "length (d_aGlyphIdArray d') = length (d_aGlyphIdArray d) + nat (cMaxChar - cMinChar + 1)" by simp
  have "2 * nMax \<le> nRemainingSize" unfolding nMax_def by simp
  moreover from c have "nRemainingSize \<noteq> 0" by (auto simp: nMax_def)
  ultimately have "ptr + 2 * nMax \<le> nLength" by (auto simp: nRemainingSize_def split: if_splits)
  with c show "pOffsetBase + 2 * i + nRangeOffset + 2 * (cMaxChar - cMinChar + 1) \<le> nLength"
    by (simp add: ptr_def)
qed

text \<open>
  C8 (as amended). Parsing a buffer of fewer than \<open>2^31 - 2^19\<close> bytes, with its own
  length, never reads outside it, whatever the bytes are: the result is never \<open>None\<close>.
  A count is only ever lowered: the number of format 4 segments the parser runs over is
  between 0 and the declared \<open>nSegCountX2/2 - 1\<close>, the number of format 12 groups between
  0 and the declared count, and the number of ranges decoded is between 0 and that
  number. A format 4 segment with a range offset that is accepted has all its
  \<open>cMaxChar - cMinChar + 1\<close> glyph ids read, from inside the first \<open>nLength\<close> bytes: a
  segment whose glyph ids do not fit is rejected, not shortened. A subtable record
  whose offset is negative or more than \<open>nLength - 2\<close> is skipped: the loop over the
  records goes on with the next record and keeps the choice made so far (the record
  can only set the symbolic flag). A format 4 segment or a format 12
  group that is rejected after \<open>j\<close> accepted ones ends the decoding of its subtable with
  the \<open>j\<close> ranges decoded before it; and when the header is valid, the chosen subtable
  has 16 bytes after its offset, at least one range was decoded and the encoding needs
  no recoding, \<open>ParseCMAP\<close> returns true with exactly the decoded ranges, start glyphs
  and glyph ids. The parser decodes the chosen subtable only: when the record with the
  best value has an offset in the buffer but not 16 bytes after it, nothing is decoded,
  whatever the other records are, and \<open>ParseCMAP\<close> returns the symbolic fallback if the
  symbolic flag is set and false otherwise.
\<close>

theorem ParseCMAP_reads_in_bounds:
  "(int (length buf) < 2 ^ 31 - 2 ^ 19 \<longrightarrow>
      ParseCMAP create (Some buf) (int (length buf)) \<noteq> None) \<and>
   0 \<le> format4_range_count nLength nOffset nSegCountX2 \<and>
   format4_range_count nLength nOffset nSegCountX2 \<le> max 0 (nSegCountX2 sdiv 2 - 1) \<and>
   0 \<le> format12_range_count nLength nOffset nGroups \<and>
   format12_range_count nLength nOffset nGroups \<le> max 0 (sint nGroups) \<and>
   (GetUShort pCmap (nOffset + 6) = Some nSegCountX2 \<and> parse_format4 pCmap nLength nOffset = Some d \<longrightarrow>
      0 \<le> decoded_range_count d \<and>
      decoded_range_count d \<le> format4_range_count nLength nOffset nSegCountX2) \<and>
   (GetUInt pCmap (nOffset + 12) = Some nGroups \<and> parse_format12 pCmap nLength nOffset = Some d \<longrightarrow>
      0 \<le> decoded_range_count d \<and>
      decoded_range_count d \<le> format12_range_count nLength nOffset nGroups) \<and>
   (GetUShort pCmap (pBeginBase + 2 * i) = Some cMinChar \<and>
    GetUShort pCmap (pLimitBase + 2 * i) = Some cMaxChar \<and>
    GetUShort pCmap (pOffsetBase + 2 * i) = Some nRangeOffset \<and> nRangeOffset \<noteq> 0 \<and>
    format4_segment pCmap nLength pLimitBase pBeginBase pDeltaBase pOffsetBase i d = Some (Next d') \<longrightarrow>
      length (d_aGlyphIdArray d') = length (d_aGlyphIdArray d) + nat (cMaxChar - cMinChar + 1) \<and>
      pOffsetBase + 2 * i + nRangeOffset + 2 * (cMaxChar - cMinChar + 1) \<le> nLength) \<and>
   (GetUShort pCmap p = Some nPlatform \<and> GetUShort pCmap (p + 2) = Some nEncoding \<and>
    GetUInt pCmap (p + 4) = Some nTmp \<and> (sint nTmp < 0 \<or> nLength - 2 < sint nTmp) \<longrightarrow>
      select_loop pCmap nLength (Suc n) p s =
        select_loop pCmap nLength n (p + 8)
          (if snd (snd (encoding_value (push_bit 8 nPlatform + nEncoding)))
           then s\<lparr>sel_mbSymbolic := True\<rparr> else s)) \<and>
   (GetUShort pCmap (nOffset + 6) = Some nSegCountX2 \<and>
    format4_loop pCmap nLength (nOffset + 14) (nOffset + 14 + nSegCountX2 + 2)
      (nOffset + 14 + nSegCountX2 + 2 + nSegCountX2)
      (nOffset + 14 + nSegCountX2 + 2 + nSegCountX2 + nSegCountX2) j 0 decoded_init = Some d \<and>
    length (d_pStartGlyphs d) = j \<and>
    int j < format4_range_count nLength nOffset nSegCountX2 \<and>
    format4_segment pCmap nLength (nOffset + 14) (nOffset + 14 + nSegCountX2 + 2)
      (nOffset + 14 + nSegCountX2 + 2 + nSegCountX2)
      (nOffset + 14 + nSegCountX2 + 2 + nSegCountX2 + nSegCountX2) (int j) d = Some Break \<longrightarrow>
      parse_format4 pCmap nLength nOffset = Some d) \<and>
   (GetUInt pCmap (nOffset + 12) = Some nGroups \<and>
    format12_loop pCmap j (nOffset + 16) decoded_init = Some d \<and>
    length (d_pStartGlyphs d) = j \<and>
    int j < format12_range_count nLength nOffset nGroups \<and>
    format12_group pCmap (nOffset + 16 + 12 * int j) d = Some Break \<longrightarrow>
      parse_format12 pCmap nLength nOffset = Some d) \<and>
   (24 \<le> nLength \<and> nLength < 2 ^ 31 - 2 ^ 19 \<and>
    GetUShort pCmap 0 = Some 0 \<and> GetUShort pCmap 2 = Some nSubTables \<and>
    0 < nSubTables \<and> nSubTables \<le> (nLength - 24) div 8 \<and>
    select_loop pCmap nLength (nat nSubTables) 4 selection_init = Some s \<and>
    sel_nOffset s + 16 < nLength \<and>
    (sel_nFormat s = 4 \<and> parse_format4 pCmap nLength (sel_nOffset s) = Some d \<or>
     sel_nFormat s = 12 \<and> parse_format12 pCmap nLength (sel_nOffset s) = Some d) \<and>
    d_pCodePairs d \<noteq> [] \<and> sel_eRecodeFrom s = RTL_TEXTENCODING_UNICODE \<longrightarrow>
      ParseCMAP create (Some pCmap) nLength =
        Some (True, \<lparr>cr_mpRangeCodes = Allocated (d_pCodePairs d),
                      cr_mpStartGlyphs = Some (d_pStartGlyphs d),
                      cr_mpGlyphIds = Some (d_aGlyphIdArray d),
                      cr_mnRangeCount = int (length (d_pStartGlyphs d)),
                      cr_mbSymbolic = sel_mbSymbolic s, cr_mbRecoded = False\<rparr>)) \<and>
   (24 \<le> nLength \<and> nLength < 2 ^ 31 - 2 ^ 19 \<and>
    GetUShort pCmap 0 = Some 0 \<and> GetUShort pCmap 2 = Some nSubTables \<and>
    0 < nSubTables \<and> nSubTables \<le> (nLength - 24) div 8 \<and>
    select_loop pCmap nLength (nat nSubTables) 4 selection_init = Some s \<and>
    nLength \<le> sel_nOffset s + 16 \<longrightarrow>
      ParseCMAP create (Some pCmap) nLength =
        Some (if sel_mbSymbolic s then (True, symbol_fallback_cmap) else (False, CmapResult_reset)))"
proof (intro conjI impI)
  show "ParseCMAP create (Some buf) (int (length buf)) \<noteq> None"
    by (rule ParseCMAP_Some) simp
  show "0 \<le> format4_range_count nLength nOffset nSegCountX2"
    and "format4_range_count nLength nOffset nSegCountX2 \<le> max 0 (nSegCountX2 sdiv 2 - 1)"
    using format4_range_count_clamped [of nLength nOffset nSegCountX2] by simp_all
  show "0 \<le> format12_range_count nLength nOffset nGroups"
    and "format12_range_count nLength nOffset nGroups \<le> max 0 (sint nGroups)"
    using format12_range_count_clamped [of nLength nOffset nGroups] by simp_all
next
  assume "GetUShort pCmap (nOffset + 6) = Some nSegCountX2 \<and>
      parse_format4 pCmap nLength nOffset = Some d"
  then have a: "GetUShort pCmap (nOffset + 6) = Some nSegCountX2"
    "parse_format4 pCmap nLength nOffset = Some d" by simp_all
  from parse_format4_inv(1) [OF a]
  show "0 \<le> decoded_range_count d" by (simp add: decoded_range_count_ok)
  from parse_format4_inv(3) [OF a]
  show "decoded_range_count d \<le> format4_range_count nLength nOffset nSegCountX2" .
next
  assume "GetUInt pCmap (nOffset + 12) = Some nGroups \<and>
      parse_format12 pCmap nLength nOffset = Some d"
  then have a: "GetUInt pCmap (nOffset + 12) = Some nGroups"
    "parse_format12 pCmap nLength nOffset = Some d" by simp_all
  from parse_format12_inv(1) [OF a]
  show "0 \<le> decoded_range_count d" by (simp add: decoded_range_count_ok)
  from parse_format12_inv(2) [OF a]
  show "decoded_range_count d \<le> format12_range_count nLength nOffset nGroups" .
next
  assume "GetUShort pCmap (pBeginBase + 2 * i) = Some cMinChar \<and>
    GetUShort pCmap (pLimitBase + 2 * i) = Some cMaxChar \<and>
    GetUShort pCmap (pOffsetBase + 2 * i) = Some nRangeOffset \<and> nRangeOffset \<noteq> 0 \<and>
    format4_segment pCmap nLength pLimitBase pBeginBase pDeltaBase pOffsetBase i d = Some (Next d')"
  then have a: "GetUShort pCmap (pBeginBase + 2 * i) = Some cMinChar"
    "GetUShort pCmap (pLimitBase + 2 * i) = Some cMaxChar"
    "GetUShort pCmap (pOffsetBase + 2 * i) = Some nRangeOffset" "nRangeOffset \<noteq> 0"
    "format4_segment pCmap nLength pLimitBase pBeginBase pDeltaBase pOffsetBase i d = Some (Next d')"
    by blast+
  show "length (d_aGlyphIdArray d') = length (d_aGlyphIdArray d) + nat (cMaxChar - cMinChar + 1)"
    by (rule format4_segment_glyphs(1) [OF a])
  show "pOffsetBase + 2 * i + nRangeOffset + 2 * (cMaxChar - cMinChar + 1) \<le> nLength"
    by (rule format4_segment_glyphs(2) [OF a])
next
  assume "GetUShort pCmap p = Some nPlatform \<and> GetUShort pCmap (p + 2) = Some nEncoding \<and>
    GetUInt pCmap (p + 4) = Some nTmp \<and> (sint nTmp < 0 \<or> nLength - 2 < sint nTmp)"
  then have a: "GetUShort pCmap p = Some nPlatform" "GetUShort pCmap (p + 2) = Some nEncoding"
    "GetUInt pCmap (p + 4) = Some nTmp" "sint nTmp < 0 \<or> nLength - 2 < sint nTmp" by blast+
  show "select_loop pCmap nLength (Suc n) p s =
        select_loop pCmap nLength n (p + 8)
          (if snd (snd (encoding_value (push_bit 8 nPlatform + nEncoding)))
           then s\<lparr>sel_mbSymbolic := True\<rparr> else s)"
    by (rule select_loop_skips [OF a])
next
  assume "GetUShort pCmap (nOffset + 6) = Some nSegCountX2 \<and>
    format4_loop pCmap nLength (nOffset + 14) (nOffset + 14 + nSegCountX2 + 2)
      (nOffset + 14 + nSegCountX2 + 2 + nSegCountX2)
      (nOffset + 14 + nSegCountX2 + 2 + nSegCountX2 + nSegCountX2) j 0 decoded_init = Some d \<and>
    length (d_pStartGlyphs d) = j \<and>
    int j < format4_range_count nLength nOffset nSegCountX2 \<and>
    format4_segment pCmap nLength (nOffset + 14) (nOffset + 14 + nSegCountX2 + 2)
      (nOffset + 14 + nSegCountX2 + 2 + nSegCountX2)
      (nOffset + 14 + nSegCountX2 + 2 + nSegCountX2 + nSegCountX2) (int j) d = Some Break"
  then have a: "GetUShort pCmap (nOffset + 6) = Some nSegCountX2"
    "format4_loop pCmap nLength (nOffset + 14) (nOffset + 14 + nSegCountX2 + 2)
      (nOffset + 14 + nSegCountX2 + 2 + nSegCountX2)
      (nOffset + 14 + nSegCountX2 + 2 + nSegCountX2 + nSegCountX2) j 0 decoded_init = Some d"
    "length (d_pStartGlyphs d) = j"
    "int j < format4_range_count nLength nOffset nSegCountX2"
    "format4_segment pCmap nLength (nOffset + 14) (nOffset + 14 + nSegCountX2 + 2)
      (nOffset + 14 + nSegCountX2 + 2 + nSegCountX2)
      (nOffset + 14 + nSegCountX2 + 2 + nSegCountX2 + nSegCountX2) (int j) d = Some Break"
    by blast+
  show "parse_format4 pCmap nLength nOffset = Some d"
    by (rule parse_format4_truncated [OF a])
next
  assume "GetUInt pCmap (nOffset + 12) = Some nGroups \<and>
    format12_loop pCmap j (nOffset + 16) decoded_init = Some d \<and>
    length (d_pStartGlyphs d) = j \<and>
    int j < format12_range_count nLength nOffset nGroups \<and>
    format12_group pCmap (nOffset + 16 + 12 * int j) d = Some Break"
  then have a: "GetUInt pCmap (nOffset + 12) = Some nGroups"
    "format12_loop pCmap j (nOffset + 16) decoded_init = Some d"
    "length (d_pStartGlyphs d) = j"
    "int j < format12_range_count nLength nOffset nGroups"
    "format12_group pCmap (nOffset + 16 + 12 * int j) d = Some Break"
    by blast+
  show "parse_format12 pCmap nLength nOffset = Some d"
    by (rule parse_format12_truncated [OF a])
next
  assume "24 \<le> nLength \<and> nLength < 2 ^ 31 - 2 ^ 19 \<and>
    GetUShort pCmap 0 = Some 0 \<and> GetUShort pCmap 2 = Some nSubTables \<and>
    0 < nSubTables \<and> nSubTables \<le> (nLength - 24) div 8 \<and>
    select_loop pCmap nLength (nat nSubTables) 4 selection_init = Some s \<and>
    sel_nOffset s + 16 < nLength \<and>
    (sel_nFormat s = 4 \<and> parse_format4 pCmap nLength (sel_nOffset s) = Some d \<or>
     sel_nFormat s = 12 \<and> parse_format12 pCmap nLength (sel_nOffset s) = Some d) \<and>
    d_pCodePairs d \<noteq> [] \<and> sel_eRecodeFrom s = RTL_TEXTENCODING_UNICODE"
  then have a: "24 \<le> nLength" "GetUShort pCmap 0 = Some 0" "GetUShort pCmap 2 = Some nSubTables"
    "0 < nSubTables" "nSubTables \<le> (nLength - 24) div 8"
    "select_loop pCmap nLength (nat nSubTables) 4 selection_init = Some s"
    "sel_nOffset s + 16 < nLength"
    "sel_nFormat s = 4 \<and> parse_format4 pCmap nLength (sel_nOffset s) = Some d \<or>
     sel_nFormat s = 12 \<and> parse_format12 pCmap nLength (sel_nOffset s) = Some d"
    "d_pCodePairs d \<noteq> []" "sel_eRecodeFrom s = RTL_TEXTENCODING_UNICODE"
    by blast+
  show "ParseCMAP create (Some pCmap) nLength =
        Some (True, \<lparr>cr_mpRangeCodes = Allocated (d_pCodePairs d),
                      cr_mpStartGlyphs = Some (d_pStartGlyphs d),
                      cr_mpGlyphIds = Some (d_aGlyphIdArray d),
                      cr_mnRangeCount = int (length (d_pStartGlyphs d)),
                      cr_mbSymbolic = sel_mbSymbolic s, cr_mbRecoded = False\<rparr>)"
    by (rule ParseCMAP_decoded [OF a])
next
  assume "24 \<le> nLength \<and> nLength < 2 ^ 31 - 2 ^ 19 \<and>
    GetUShort pCmap 0 = Some 0 \<and> GetUShort pCmap 2 = Some nSubTables \<and>
    0 < nSubTables \<and> nSubTables \<le> (nLength - 24) div 8 \<and>
    select_loop pCmap nLength (nat nSubTables) 4 selection_init = Some s \<and>
    nLength \<le> sel_nOffset s + 16"
  then have a: "24 \<le> nLength" "GetUShort pCmap 0 = Some 0" "GetUShort pCmap 2 = Some nSubTables"
    "0 < nSubTables" "nSubTables \<le> (nLength - 24) div 8"
    "select_loop pCmap nLength (nat nSubTables) 4 selection_init = Some s"
    "nLength \<le> sel_nOffset s + 16"
    by blast+
  show "ParseCMAP create (Some pCmap) nLength =
        Some (if sel_mbSymbolic s then (True, symbol_fallback_cmap) else (False, CmapResult_reset))"
    by (rule ParseCMAP_winner_truncated [OF a])
qed

lemma parse_format12_table:
  "ParseCMAP create (Some format12_table) 52 =
     Some (True, \<lparr>cr_mpRangeCodes = Allocated [0x1F600, 0x1F601], cr_mpStartGlyphs = Some [500],
                  cr_mpGlyphIds = Some [0], cr_mnRangeCount = 1, cr_mbSymbolic = False,
                  cr_mbRecoded = False\<rparr>)"
  by (simp add: parse_eval format12_table_def)

theorem ParseCMAP_reads_in_bounds_witness:
  "int (length (take 48 unordered_table)) < 2 ^ 31 - 2 ^ 19 \<and>
   ParseCMAP no_converter (Some (take 48 unordered_table)) (int (length (take 48 unordered_table))) \<noteq> None \<and>
   GetUShort (take 48 unordered_table) (12 + 6) = Some 6 \<and>
   parse_format4 (take 48 unordered_table) 48 12 =
     Some \<lparr>d_pCodePairs = [0x50, 0x51], d_pStartGlyphs = [0x50], d_aGlyphIdArray = [0]\<rparr> \<and>
   format4_range_count 48 12 6 = 1 \<and>
   decoded_range_count \<lparr>d_pCodePairs = [0x50, 0x51], d_pStartGlyphs = [0x50], d_aGlyphIdArray = [0]\<rparr>
     \<le> format4_range_count 48 12 6 \<and>
   GetUInt format12_table (12 + 12) = Some 2 \<and>
   format12_range_count 52 12 2 = 2 \<and>
   format12_loop format12_table 1 (12 + 16) decoded_init =
     Some \<lparr>d_pCodePairs = [0x1F600, 0x1F601], d_pStartGlyphs = [500], d_aGlyphIdArray = [0]\<rparr> \<and>
   format12_group format12_table (12 + 16 + 12 * int 1)
     \<lparr>d_pCodePairs = [0x1F600, 0x1F601], d_pStartGlyphs = [500], d_aGlyphIdArray = [0]\<rparr> = Some Break \<and>
   parse_format12 format12_table 52 12 =
     Some \<lparr>d_pCodePairs = [0x1F600, 0x1F601], d_pStartGlyphs = [500], d_aGlyphIdArray = [0]\<rparr> \<and>
   decoded_range_count \<lparr>d_pCodePairs = [0x1F600, 0x1F601], d_pStartGlyphs = [500], d_aGlyphIdArray = [0]\<rparr>
     \<le> format12_range_count 52 12 2 \<and>
   GetUShort indirect_glyph_table (32 + 2 * 0) = Some 0x41 \<and>
   GetUShort indirect_glyph_table (26 + 2 * 0) = Some 0x42 \<and>
   GetUShort indirect_glyph_table (40 + 2 * 0) = Some 4 \<and>
   format4_segment indirect_glyph_table 48 26 32 36 40 0 decoded_init =
     Some (Next \<lparr>d_pCodePairs = [0x41, 0x43], d_pStartGlyphs = [- 1],
                  d_aGlyphIdArray = [0, 0x10, 0x11]\<rparr>) \<and>
   length (d_aGlyphIdArray \<lparr>d_pCodePairs = [0x41, 0x43], d_pStartGlyphs = [- 1],
                             d_aGlyphIdArray = [0, 0x10, 0x11 :: 16 word]\<rparr>) =
     length (d_aGlyphIdArray decoded_init) + nat (0x42 - 0x41 + 1) \<and>
   (40 :: int) + 2 * 0 + 4 + 2 * (0x42 - 0x41 + 1) \<le> 48 \<and>
   format4_segment (take 46 indirect_glyph_table) 46 26 32 36 40 0 decoded_init = Some Break \<and>
   GetUInt skipped_subtable_table (4 + 4) = Some 0xFFFFFFFF \<and>
   sint (0xFFFFFFFF :: 32 word) < 0 \<and>
   select_loop skipped_subtable_table 52 (Suc 1) 4 selection_init =
     select_loop skipped_subtable_table 52 1 (4 + 8) selection_init \<and>
   select_loop skipped_subtable_table 52 1 (4 + 8) selection_init =
     Some \<lparr>sel_eRecodeFrom = RTL_TEXTENCODING_UNICODE, sel_nOffset = 20, sel_nFormat = 4,
            sel_nBestVal = 28, sel_mbSymbolic = False\<rparr> \<and>
   ParseCMAP no_converter (Some skipped_subtable_table) 52 = Some (True, format4_cmap) \<and>
   GetUShort truncated_segments_table (12 + 6) = Some 8 \<and>
   format4_range_count 60 12 8 = 3 \<and>
   format4_loop truncated_segments_table 60 (12 + 14) (12 + 14 + 8 + 2) (12 + 14 + 8 + 2 + 8)
     (12 + 14 + 8 + 2 + 8 + 8) 1 0 decoded_init =
     Some \<lparr>d_pCodePairs = [0x20, 0x22], d_pStartGlyphs = [0x20], d_aGlyphIdArray = [0]\<rparr> \<and>
   format4_segment truncated_segments_table 60 (12 + 14) (12 + 14 + 8 + 2) (12 + 14 + 8 + 2 + 8)
     (12 + 14 + 8 + 2 + 8 + 8) (int 1)
     \<lparr>d_pCodePairs = [0x20, 0x22], d_pStartGlyphs = [0x20], d_aGlyphIdArray = [0]\<rparr> = Some Break \<and>
   format4_segment truncated_segments_table 60 26 36 44 52 2
     \<lparr>d_pCodePairs = [0x20, 0x22], d_pStartGlyphs = [0x20], d_aGlyphIdArray = [0]\<rparr> =
     Some (Next \<lparr>d_pCodePairs = [0x20, 0x22, 0x60, 0x61], d_pStartGlyphs = [0x20, 0x60],
                  d_aGlyphIdArray = [0]\<rparr>) \<and>
   parse_format4 truncated_segments_table 60 12 =
     Some \<lparr>d_pCodePairs = [0x20, 0x22], d_pStartGlyphs = [0x20], d_aGlyphIdArray = [0]\<rparr> \<and>
   select_loop truncated_segments_table 60 (nat 1) 4 selection_init =
     Some \<lparr>sel_eRecodeFrom = RTL_TEXTENCODING_UNICODE, sel_nOffset = 12, sel_nFormat = 4,
            sel_nBestVal = 28, sel_mbSymbolic = False\<rparr> \<and>
   ParseCMAP no_converter (Some truncated_segments_table) 60 =
     Some (True, \<lparr>cr_mpRangeCodes = Allocated [0x20, 0x22], cr_mpStartGlyphs = Some [0x20],
                   cr_mpGlyphIds = Some [0], cr_mnRangeCount = 1, cr_mbSymbolic = False,
                   cr_mbRecoded = False\<rparr>) \<and>
   select_loop truncated_winner_table 54 (nat 2) 4 selection_init =
     Some \<lparr>sel_eRecodeFrom = RTL_TEXTENCODING_UNICODE, sel_nOffset = 52, sel_nFormat = 12,
            sel_nBestVal = 32, sel_mbSymbolic = False\<rparr> \<and>
   (54 :: int) \<le> 52 + 16 \<and>
   ParseCMAP no_converter (Some truncated_winner_table) 54 = Some (False, CmapResult_reset)"
proof -
  let ?d4 = "\<lparr>d_pCodePairs = [0x50, 0x51], d_pStartGlyphs = [0x50], d_aGlyphIdArray = [0 :: 16 word]\<rparr>"
  let ?d12 = "\<lparr>d_pCodePairs = [0x1F600, 0x1F601], d_pStartGlyphs = [500], d_aGlyphIdArray = [0 :: 16 word]\<rparr>"
  let ?d20 = "\<lparr>d_pCodePairs = [0x20, 0x22], d_pStartGlyphs = [0x20], d_aGlyphIdArray = [0 :: 16 word]\<rparr>"
  let ?s20 = "\<lparr>sel_eRecodeFrom = RTL_TEXTENCODING_UNICODE, sel_nOffset = 20, sel_nFormat = 4,
      sel_nBestVal = 28, sel_mbSymbolic = False\<rparr>"
  let ?s12 = "\<lparr>sel_eRecodeFrom = RTL_TEXTENCODING_UNICODE, sel_nOffset = 12, sel_nFormat = 4,
      sel_nBestVal = 28, sel_mbSymbolic = False\<rparr>"
  let ?s52 = "\<lparr>sel_eRecodeFrom = RTL_TEXTENCODING_UNICODE, sel_nOffset = 52, sel_nFormat = 12,
      sel_nBestVal = 32, sel_mbSymbolic = False\<rparr>"
  note t = ParseCMAP_reads_in_bounds
  have l48: "int (length (take 48 unordered_table)) < 2 ^ 31 - 2 ^ 19"
    by (simp add: unordered_table_def)
  have g4: "GetUShort (take 48 unordered_table) (12 + 6) = Some 6"
    by (simp add: GetUShort_def byte_at_def unordered_table_def)
  have p4: "parse_format4 (take 48 unordered_table) 48 12 = Some ?d4"
    by (simp add: parse_eval unordered_table_def)
  have c4: "format4_range_count 48 12 6 = 1"
    by (simp add: format4_range_count_def signed_divide_int_def)
  have g12: "GetUInt format12_table (12 + 12) = Some 2"
    by (simp add: GetUInt_def byte_at_def format12_table_def)
  have c12: "format12_range_count 52 12 2 = 2"
    by (simp add: format12_range_count_def signed_divide_int_def)
  have l12: "format12_loop format12_table 1 (12 + 16) decoded_init = Some ?d12"
    by (simp add: parse_eval format12_table_def)
  have b12: "format12_group format12_table (12 + 16 + 12 * int 1) ?d12 = Some Break"
    by (simp add: parse_eval format12_table_def)
  have r: "GetUShort skipped_subtable_table 4 = Some 3" "GetUShort skipped_subtable_table (4 + 2) = Some 10"
    "GetUInt skipped_subtable_table (4 + 4) = Some 0xFFFFFFFF"
    by (simp_all add: GetUShort_def GetUInt_def byte_at_def skipped_subtable_table_def)
  have neg: "sint (0xFFFFFFFF :: 32 word) < 0" by simp
  have sk: "select_loop skipped_subtable_table 52 1 (4 + 8) selection_init = Some ?s20"
    by (simp add: parse_eval skipped_subtable_table_def)
  have g8: "GetUShort truncated_segments_table (12 + 6) = Some 8"
    by (simp add: GetUShort_def byte_at_def truncated_segments_table_def)
  have c8: "format4_range_count 60 12 8 = 3"
    by (simp add: format4_range_count_def signed_divide_int_def)
  have l20: "format4_loop truncated_segments_table 60 (12 + 14) (12 + 14 + 8 + 2) (12 + 14 + 8 + 2 + 8)
      (12 + 14 + 8 + 2 + 8 + 8) 1 0 decoded_init = Some ?d20"
    by (simp add: parse_eval truncated_segments_table_def)
  have b20: "format4_segment truncated_segments_table 60 (12 + 14) (12 + 14 + 8 + 2) (12 + 14 + 8 + 2 + 8)
      (12 + 14 + 8 + 2 + 8 + 8) (int 1) ?d20 = Some Break"
    by (simp add: parse_eval truncated_segments_table_def)
  have len20: "length (d_pStartGlyphs ?d20) = 1" by simp
  have lt20: "int 1 < format4_range_count 60 12 8" using c8 by simp
  have n20: "format4_segment truncated_segments_table 60 26 36 44 52 2 ?d20 =
     Some (Next \<lparr>d_pCodePairs = [0x20, 0x22, 0x60, 0x61], d_pStartGlyphs = [0x20, 0x60],
                  d_aGlyphIdArray = [0]\<rparr>)"
    by (simp add: parse_eval truncated_segments_table_def)
  have h60: "GetUShort truncated_segments_table 0 = Some 0" "GetUShort truncated_segments_table 2 = Some 1"
    by (simp_all add: GetUShort_def byte_at_def truncated_segments_table_def)
  have s60: "select_loop truncated_segments_table 60 (nat 1) 4 selection_init = Some ?s12"
    by (simp add: parse_eval truncated_segments_table_def)
  have h54: "GetUShort truncated_winner_table 0 = Some 0" "GetUShort truncated_winner_table 2 = Some 2"
    by (simp_all add: GetUShort_def byte_at_def truncated_winner_table_def)
  have s54: "select_loop truncated_winner_table 54 (nat 2) 4 selection_init = Some ?s52"
    by (simp add: parse_eval truncated_winner_table_def)
  let ?dg = "\<lparr>d_pCodePairs = [0x41, 0x43], d_pStartGlyphs = [- 1],
      d_aGlyphIdArray = [0, 0x10, 0x11 :: 16 word]\<rparr>"
  have rg: "GetUShort indirect_glyph_table (32 + 2 * 0) = Some 0x41"
    "GetUShort indirect_glyph_table (26 + 2 * 0) = Some 0x42"
    "GetUShort indirect_glyph_table (40 + 2 * 0) = Some 4"
    by (simp_all add: GetUShort_def byte_at_def indirect_glyph_table_def)
  have nz: "(4 :: int) \<noteq> 0" by simp
  have sg: "format4_segment indirect_glyph_table 48 26 32 36 40 0 decoded_init = Some (Next ?dg)"
    by (simp add: parse_eval glyph_id_loop_numeral indirect_glyph_table_def)
  have bg: "format4_segment (take 46 indirect_glyph_table) 46 26 32 36 40 0 decoded_init = Some Break"
    by (simp add: parse_eval indirect_glyph_table_def)
  from t [of _ _ 48 _ _ _ indirect_glyph_table decoded_init 32 0 "0x41" 26 "0x42" 40 4 36 ?dg,
      THEN conjunct2, THEN conjunct2, THEN conjunct2, THEN conjunct2, THEN conjunct2, THEN conjunct2, THEN conjunct2, THEN conjunct1] rg nz sg
  have 8: "length (d_aGlyphIdArray ?dg) =
      length (d_aGlyphIdArray decoded_init) + nat (0x42 - 0x41 + 1) \<and>
      (40 :: int) + 2 * 0 + 4 + 2 * (0x42 - 0x41 + 1) \<le> 48" by blast
  from t [of "take 48 unordered_table" no_converter, THEN conjunct1] l48
  have 1: "ParseCMAP no_converter (Some (take 48 unordered_table))
      (int (length (take 48 unordered_table))) \<noteq> None" by blast
  from t [of _ _ 48 12 6 _ "take 48 unordered_table" ?d4, THEN conjunct2, THEN conjunct2, THEN conjunct2, THEN conjunct2, THEN conjunct2, THEN conjunct1] g4 p4
  have 2: "decoded_range_count ?d4 \<le> format4_range_count 48 12 6" by blast
  have len12: "length (d_pStartGlyphs ?d12) = 1" by simp
  have lt12: "int 1 < format12_range_count 52 12 2" using c12 by simp
  from t [of _ _ 52 12 _ 2 format12_table ?d12 _ _ _ _ _ _ _ _ _ _ _ _ _ _ _ 1, THEN conjunct2, THEN conjunct2, THEN conjunct2, THEN conjunct2, THEN conjunct2, THEN conjunct2, THEN conjunct2, THEN conjunct2, THEN conjunct2, THEN conjunct2, THEN conjunct1] g12 l12 len12 lt12 b12
  have p12: "parse_format12 format12_table 52 12 = Some ?d12" by blast
  from t [of _ _ 52 12 _ 2 format12_table ?d12, THEN conjunct2, THEN conjunct2, THEN conjunct2, THEN conjunct2, THEN conjunct2, THEN conjunct2, THEN conjunct1] g12 p12
  have 3: "decoded_range_count ?d12 \<le> format12_range_count 52 12 2" by blast
  from t [of _ _ 52 _ _ _ skipped_subtable_table _ _ _ _ _ _ _ _ _ _ 4 3 10 "0xFFFFFFFF" 1 selection_init, THEN conjunct2, THEN conjunct2, THEN conjunct2, THEN conjunct2, THEN conjunct2, THEN conjunct2, THEN conjunct2, THEN conjunct2, THEN conjunct1] r neg
  have "select_loop skipped_subtable_table 52 (Suc 1) 4 selection_init =
      select_loop skipped_subtable_table 52 1 (4 + 8)
        (if snd (snd (encoding_value (push_bit 8 3 + 10)))
         then selection_init\<lparr>sel_mbSymbolic := True\<rparr> else selection_init)"
    by blast
  then have 4: "select_loop skipped_subtable_table 52 (Suc 1) 4 selection_init =
      select_loop skipped_subtable_table 52 1 (4 + 8) selection_init"
    by (simp add: encoding_value_def)
  from t [of _ _ 60 12 8 _ truncated_segments_table ?d20 _ _ _ _ _ _ _ _ _ _ _ _ _ _ _ 1, THEN conjunct2, THEN conjunct2, THEN conjunct2, THEN conjunct2, THEN conjunct2, THEN conjunct2, THEN conjunct2, THEN conjunct2, THEN conjunct2, THEN conjunct1] g8 l20 len20 lt20 b20
  have 5: "parse_format4 truncated_segments_table 60 12 = Some ?d20" by blast
  have a60: "(24 :: int) \<le> 60" "(60 :: int) < 2 ^ 31 - 2 ^ 19" "(0 :: int) < 1"
    "(1 :: int) \<le> (60 - 24) div 8" "sel_nOffset ?s12 + 16 < 60" "sel_nFormat ?s12 = 4"
    "sel_eRecodeFrom ?s12 = RTL_TEXTENCODING_UNICODE" "d_pCodePairs ?d20 \<noteq> []"
    by simp_all
  have p5: "parse_format4 truncated_segments_table 60 (sel_nOffset ?s12) = Some ?d20"
    using 5 by simp
  from t [of _ no_converter 60 _ _ _ truncated_segments_table ?d20 _ _ _ _ _ _ _ _ _ _ _ _ _ _ ?s12 _ 1, THEN conjunct2, THEN conjunct2, THEN conjunct2, THEN conjunct2, THEN conjunct2, THEN conjunct2, THEN conjunct2, THEN conjunct2, THEN conjunct2, THEN conjunct2, THEN conjunct2, THEN conjunct1] h60 s60 p5 a60
  have "ParseCMAP no_converter (Some truncated_segments_table) 60 =
        Some (True, \<lparr>cr_mpRangeCodes = Allocated (d_pCodePairs ?d20),
                      cr_mpStartGlyphs = Some (d_pStartGlyphs ?d20),
                      cr_mpGlyphIds = Some (d_aGlyphIdArray ?d20),
                      cr_mnRangeCount = int (length (d_pStartGlyphs ?d20)),
                      cr_mbSymbolic = sel_mbSymbolic ?s12, cr_mbRecoded = False\<rparr>)"
    by blast
  then have 6: "ParseCMAP no_converter (Some truncated_segments_table) 60 =
     Some (True, \<lparr>cr_mpRangeCodes = Allocated [0x20, 0x22], cr_mpStartGlyphs = Some [0x20],
                   cr_mpGlyphIds = Some [0], cr_mnRangeCount = 1, cr_mbSymbolic = False,
                   cr_mbRecoded = False\<rparr>)" by simp
  have a54: "(24 :: int) \<le> 54" "(54 :: int) < 2 ^ 31 - 2 ^ 19" "(0 :: int) < 2"
    "(2 :: int) \<le> (54 - 24) div 8" "54 \<le> sel_nOffset ?s52 + 16"
    by simp_all
  from t [of _ no_converter 54 _ _ _ truncated_winner_table _ _ _ _ _ _ _ _ _ _ _ _ _ _ _ ?s52 _ 2, THEN conjunct2, THEN conjunct2, THEN conjunct2, THEN conjunct2, THEN conjunct2, THEN conjunct2, THEN conjunct2, THEN conjunct2, THEN conjunct2, THEN conjunct2, THEN conjunct2, THEN conjunct2] h54 s54 a54
  have "ParseCMAP no_converter (Some truncated_winner_table) 54 =
        Some (if sel_mbSymbolic ?s52 then (True, symbol_fallback_cmap) else (False, CmapResult_reset))"
    by blast
  then have 7: "ParseCMAP no_converter (Some truncated_winner_table) 54 = Some (False, CmapResult_reset)"
    by simp
  from l48 1 g4 p4 c4 2 g12 c12 l12 b12 p12 3 rg sg 8 bg r(3) neg 4 sk parse_skipped [of no_converter]
    g8 c8 l20 b20 n20 5 s60 6 s54 7
  show ?thesis by (simp add: decoded_init_def)
qed

text \<open>
  C8 as stated fails: a subtable that is cut off is not always skipped.
  \<open>truncated_winner_table\<close> has a valid format 4 subtable at offset 20, which is the
  choice after the first record; with the subtable count 1 in the header, the table
  parses to the range \<open>[0x41, 0x42)\<close>. With both records,
  the second record has the better encoding and an offset, 52, that is in the buffer,
  so it becomes the choice, its subtable is not decoded (\<open>52 + 16 \<ge> 54\<close>) and
  \<open>ParseCMAP\<close> returns false.
\<close>

theorem ParseCMAP_truncated_winner_counterexample:
  "length truncated_winner_table = 54 \<and>
   select_loop truncated_winner_table 54 1 4 selection_init =
     Some \<lparr>sel_eRecodeFrom = RTL_TEXTENCODING_UNICODE, sel_nOffset = 20, sel_nFormat = 4,
            sel_nBestVal = 28, sel_mbSymbolic = False\<rparr> \<and>
   parse_format4 truncated_winner_table 54 20 = Some one_range_decoded \<and>
   ParseCMAP no_converter (Some (truncated_winner_table[3 := 1])) 54 = Some (True, format4_cmap) \<and>
   select_loop truncated_winner_table 54 2 4 selection_init =
     Some \<lparr>sel_eRecodeFrom = RTL_TEXTENCODING_UNICODE, sel_nOffset = 52, sel_nFormat = 12,
            sel_nBestVal = 32, sel_mbSymbolic = False\<rparr> \<and>
   ParseCMAP no_converter (Some truncated_winner_table) 54 = Some (False, CmapResult_reset)"
  by (simp add: parse_eval truncated_winner_table_def format4_cmap_def one_range_decoded_def)

subsection \<open>The range table of a parsed map\<close>

lemma ucast16_le: "(ucast (c :: 16 word) :: 32 word) \<le> 0xFFFF"
proof -
  have "uint (ucast c :: 32 word) = uint c" by (rule uint_up_ucast) (simp add: is_up)
  moreover have "uint c < 2 ^ 16" using uint_lt2p [of c] by simp
  ultimately show ?thesis by (simp add: word_le_def)
qed

lemma sorted_vector_insert_ok:
  "points_ok pts \<Longrightarrow> x \<le> 0xFFFF \<Longrightarrow> points_ok (sorted_vector_insert x pts)"
  by (auto simp: points_ok_def sorted_vector_insert_def strict_sorted_iff sorted_insort
      distinct_insort set_insort_key list_all_iff)

lemma fold_insert_ok:
  "points_ok pts \<Longrightarrow> points_ok (fold (\<lambda>c. sorted_vector_insert (ucast c)) (cs :: 16 word list) pts)"
  by (induction cs arbitrary: pts) (simp_all add: sorted_vector_insert_ok ucast16_le)

lemma recode_range_ok:
  "points_ok pts \<Longrightarrow> points_ok (snd (recode_range convert ctx cMin cEnd pts))"
proof (induction convert ctx cMin cEnd pts rule: recode_range.induct)
  case (1 convert ctx cMin cEnd pts)
  show ?case
  proof (cases "cMin < cEnd \<and> cMin \<le> 0xFFFF")
    case True
    define chunk where "chunk = recode_chunk NINSIZE cMin cEnd []"
    define out where "out = convert ctx (snd chunk) NOUTSIZE"
    define pts' where "pts' = fold (\<lambda>c. sorted_vector_insert (ucast c)) (take NOUTSIZE (fst out)) pts"
    have ok': "points_ok pts'" unfolding pts'_def by (rule fold_insert_ok [OF "1.prems"])
    have "recode_range convert ctx cMin cEnd pts = recode_range convert (snd out) (fst chunk) cEnd pts'"
      using True by (subst recode_range.simps) (simp add: Let_def chunk_def out_def pts'_def)
    moreover have "points_ok (snd (recode_range convert (snd out) (fst chunk) cEnd pts'))"
      using "1.IH" [OF True chunk_def out_def] ok' by (simp add: pts'_def)
    ultimately show ?thesis by simp
  next
    case False
    have "recode_range convert ctx cMin cEnd pts = (ctx, pts)"
      by (subst recode_range.simps) (simp only: False if_False)
    with "1.prems" show ?thesis by simp
  qed
qed

lemma recode_ranges_ok:
  "points_ok pts \<Longrightarrow> points_ok (recode_ranges convert ctx rs pts)"
proof (induction rs arbitrary: ctx pts)
  case Nil
  then show ?case by simp
next
  case (Cons r rs)
  obtain cMin cEnd where r: "r = (cMin, cEnd)" by (cases r)
  from Cons.IH [OF recode_range_ok [OF Cons.prems, of convert ctx cMin cEnd]]
  show ?case by (simp add: r Let_def)
qed

lemma word_succ_le_10000: "(p :: 32 word) \<le> 0xFFFF \<Longrightarrow> p < p + 1 \<and> p + 1 \<le> 0x10000"
proof -
  assume "p \<le> 0xFFFF"
  then have "p < 0x10000" by (simp add: word_le_nat_alt word_less_nat_alt)
  from word_succ_between [OF this] show ?thesis .
qed

lemma le_last_strict_sorted:
  assumes "sorted_wrt (<) (rs :: sal_UCS4 list)" and "x \<in> set rs"
  shows "x \<le> last rs"
proof -
  from assms(2) have ne: "rs \<noteq> []" by auto
  then have dec: "rs = butlast rs @ [last rs]" by simp
  with assms(1) have "sorted_wrt (<) (butlast rs @ [last rs])" by simp
  then have b: "\<forall>y \<in> set (butlast rs). y < last rs" by (simp add: sorted_wrt_append)
  from assms(2) dec have "x \<in> set (butlast rs) \<or> x = last rs"
    by (metis Un_iff empty_iff empty_set insert_iff list.set(2) set_append)
  with b show ?thesis by auto
qed

lemma add_supported_point_ok:
  assumes ok: "ranges_ok rs" and p: "p \<le> 0xFFFF" and last: "rs \<noteq> [] \<longrightarrow> last rs \<le> p"
  shows "ranges_ok (add_supported_point p rs) \<and> add_supported_point p rs \<noteq> [] \<and>
         last (add_supported_point p rs) = p + 1"
proof -
  from word_succ_le_10000 [OF p] have s: "p < p + 1" "p + 1 \<le> 0x10000" by simp_all
  from p have p': "p \<le> 0x10000" by (simp add: word_le_nat_alt)
  show ?thesis
  proof (cases "rs = [] \<or> last rs \<noteq> p")
    case True
    then have e: "add_supported_point p rs = rs @ [p, p + 1]"
      by (auto simp: add_supported_point_def Let_def butlast_append)
    have "\<forall>x \<in> set rs. x < p"
    proof
      fix x assume x: "x \<in> set rs"
      then have ne: "rs \<noteq> []" by auto
      with True last have lp: "last rs < p" by auto
      from ok have "sorted_wrt (<) rs" by (simp add: ranges_ok_def)
      from le_last_strict_sorted [OF this x] have "x \<le> last rs" .
      with lp show "x < p" by simp
    qed
    with ok s p' show ?thesis
      unfolding e by (auto simp: ranges_ok_def sorted_wrt_append intro: less_trans)
  next
    case False
    then have ne: "rs \<noteq> []" and lp: "last rs = p" by auto
    then have e: "add_supported_point p rs = butlast rs @ [p + 1]"
      by (simp add: add_supported_point_def)
    from ne have dec: "rs = butlast rs @ [last rs]" by simp
    from ok have "sorted_wrt (<) (butlast rs @ [last rs])" using dec by (simp add: ranges_ok_def)
    then have b: "sorted_wrt (<) (butlast rs)" "\<forall>x \<in> set (butlast rs). x < p"
      using lp by (auto simp: sorted_wrt_append)
    have "even (length (butlast rs @ [p + 1]))" using ok ne by (simp add: ranges_ok_def)
    moreover have "list_all (\<lambda>b. b \<le> 0x10000) (butlast rs)"
      using ok by (auto simp: ranges_ok_def list_all_iff dest: in_set_butlastD)
    ultimately show ?thesis
      unfolding e using b s by (auto simp: ranges_ok_def sorted_wrt_append intro: less_trans)
  qed
qed

lemma fold_add_supported_point_ok:
  "sorted_wrt (<) pts \<Longrightarrow> list_all (\<lambda>p. p \<le> 0xFFFF) pts \<Longrightarrow> ranges_ok rs \<Longrightarrow>
   (rs \<noteq> [] \<longrightarrow> (\<forall>p \<in> set pts. last rs \<le> p)) \<Longrightarrow>
   ranges_ok (fold add_supported_point pts rs)"
proof (induction pts arbitrary: rs)
  case Nil
  then show ?case by simp
next
  case (Cons p pts)
  from Cons.prems have p: "p \<le> 0xFFFF" and l: "rs \<noteq> [] \<longrightarrow> last rs \<le> p" by simp_all
  from add_supported_point_ok [OF Cons.prems(3) p l]
  have a: "ranges_ok (add_supported_point p rs)" "add_supported_point p rs \<noteq> []"
    "last (add_supported_point p rs) = p + 1" by simp_all
  have "\<forall>q \<in> set pts. p + 1 \<le> q"
  proof
    fix q assume "q \<in> set pts"
    with Cons.prems(1) have "p < q" by auto
    then show "p + 1 \<le> q" by (rule inc_le)
  qed
  with a(3) have l': "add_supported_point p rs \<noteq> [] \<longrightarrow> (\<forall>q \<in> set pts. last (add_supported_point p rs) \<le> q)"
    by simp
  from Cons.prems have "sorted_wrt (<) pts" "list_all (\<lambda>p. p \<le> 0xFFFF) pts" by simp_all
  from Cons.IH [OF this a(1) l'] show ?case by simp
qed

lemma supported_ranges_ok: "points_ok pts \<Longrightarrow> ranges_ok (supported_ranges pts)"
  unfolding supported_ranges_def points_ok_def
  by (intro fold_add_supported_point_ok) (simp_all add: ranges_ok_def)

lemma parse_unordered_table:
  "ParseCMAP create (Some unordered_table) 52 = Some (True, unordered_cmap)"
  by (simp add: parse_eval unordered_table_def unordered_cmap_def)

lemma parse_shift_jis:
  "ParseCMAP bytewise_converter (Some shift_jis_table) 44 = Some (True, recoded_cmap)"
  by (simp add: parse_eval shift_jis_table_def recoded_cmap_def bytewise_converter_def
      range_pairs_def recode_range.simps NINSIZE_def NOUTSIZE_def
      sorted_vector_insert_def supported_ranges_def add_supported_point_def)

lemma parse_result_table:
  assumes ok: "decoded_ok d" and res: "parse_result create s d = (True, r)"
  shows "0 < cr_mnRangeCount r \<and>
         int (length (deref (cr_mpRangeCodes r))) = 2 * cr_mnRangeCount r \<and>
         (cr_mpStartGlyphs r = None \<longrightarrow> sorted_wrt (<) (deref (cr_mpRangeCodes r)))"
proof (cases "decoded_range_count d \<le> 0")
  case True
  with res have "r = symbol_fallback_cmap"
    by (auto simp: parse_result_def symbol_fallback_cmap_def CmapResult_reset_def Let_def
        split: if_splits)
  then show ?thesis by (simp add: symbol_fallback_cmap_def)
next
  case pos: False
  define cv where "cv = (if sel_eRecodeFrom s \<noteq> RTL_TEXTENCODING_UNICODE
      then create (sel_eRecodeFrom s) else None)"
  show ?thesis
  proof (cases cv)
    case None
    with res pos have r: "cr_mpRangeCodes r = Allocated (d_pCodePairs d)"
      "cr_mnRangeCount r = decoded_range_count d" "cr_mpStartGlyphs r = Some (d_pStartGlyphs d)"
      by (auto simp: parse_result_def CmapResult_reset_def Let_def cv_def split: if_splits)
    from ok pos r decoded_range_count_ok [OF ok] show ?thesis by (simp add: decoded_ok_def)
  next
    case (Some aConverter)
    define rs where "rs = supported_ranges (recode_ranges (rtl_convertTextToUnicode aConverter)
        (aCvtContext aConverter) (range_pairs (d_pCodePairs d) (decoded_range_count d)) [])"
    have "points_ok []" by (simp add: points_ok_def)
    then have rok: "ranges_ok rs"
      unfolding rs_def by (intro supported_ranges_ok recode_ranges_ok)
    from res pos Some have r: "cr_mpRangeCodes r = Allocated rs"
      "cr_mnRangeCount r = int (length rs) div 2" "0 < int (length rs) div 2"
      by (auto simp: parse_result_def CmapResult_reset_def Let_def cv_def rs_def split: if_splits)
    from rok have "even (length rs)" "sorted_wrt (<) rs" by (simp_all add: ranges_ok_def)
    with r show ?thesis by auto
  qed
qed

lemma ParseCMAP_success_result:
  assumes "ParseCMAP create pCmap nLength = Some (True, r)"
  shows "\<exists>s d. decoded_ok d \<and> parse_result create s d = (True, r)"
proof -
  from ParseCMAP_success_header [OF assms] obtain buf n where
    h: "pCmap = Some buf" "24 \<le> nLength" "GetUShort buf 0 = Some 0" "GetUShort buf 2 = Some n"
       "0 < n" "n \<le> (nLength - 24) div 8" by blast
  with assms have p: "parse_subtables create buf nLength n = Some (True, r)"
    by (simp add: ParseCMAP_def sdiv_nonneg)
  then obtain s d where sd: "select_loop buf nLength (nat n) 4 selection_init = Some s"
    "parse_best_subtable buf nLength s = Some d" "parse_result create s d = (True, r)"
    by (auto simp: parse_subtables_def split: Option.bind_splits)
  from parse_best_subtable_ok [OF sd(2)] sd(3) show ?thesis by blast
qed

lemma default_map_ok: "range_table_ok (default_map bSymbols)"
  by (cases bSymbols)
    (simp_all add: range_table_ok_def default_map_def ImplFontCharMap_ctor_def CmapResult_ctor_def
      sdiv_nonneg)

lemma parse_format4_pairs_lt:
  assumes "parse_format4 buf nLength nOffset = Some d"
  shows "pairs_lt (d_pCodePairs d)"
proof -
  from assms obtain X where "GetUShort buf (nOffset + 6) = Some X"
    by (auto simp: parse_format4_def split: Option.bind_splits)
  from parse_format4_inv(2) [OF this assms] show ?thesis .
qed

text \<open>
  C6 (as amended). The result of a successful parse has at least one range and
  \<open>2 * mnRangeCount\<close> boundaries, and when it has no glyph data (the symbolic fallback
  and every recoded table) its boundaries are strictly increasing; each default map has
  strictly increasing boundaries. The ranges decoded from a format 4 subtable each
  start before they end; the parser does not compare one range with the next.
\<close>

theorem parsed_range_table:
  "(ParseCMAP create pCmap nLength = Some (True, r) \<longrightarrow>
      0 < cr_mnRangeCount r \<and>
      int (length (deref (cr_mpRangeCodes r))) = 2 * cr_mnRangeCount r \<and>
      (cr_mpStartGlyphs r = None \<longrightarrow> range_table_ok (ImplFontCharMap_ctor r))) \<and>
   range_table_ok (default_map bSymbols) \<and>
   (parse_format4 buf nLength' nOffset = Some d \<longrightarrow> pairs_lt (d_pCodePairs d))"
proof (intro conjI impI)
  assume a: "ParseCMAP create pCmap nLength = Some (True, r)"
  from ParseCMAP_success_result [OF a] obtain s d where
    "decoded_ok d" "parse_result create s d = (True, r)" by blast
  from parse_result_table [OF this]
  have t: "0 < cr_mnRangeCount r" "int (length (deref (cr_mpRangeCodes r))) = 2 * cr_mnRangeCount r"
    "cr_mpStartGlyphs r = None \<longrightarrow> sorted_wrt (<) (deref (cr_mpRangeCodes r))" by simp_all
  show "0 < cr_mnRangeCount r" by (rule t)
  show "int (length (deref (cr_mpRangeCodes r))) = 2 * cr_mnRangeCount r" by (rule t)
  show "range_table_ok (ImplFontCharMap_ctor r)" if "cr_mpStartGlyphs r = None"
    using t that by (simp add: range_table_ok_def ImplFontCharMap_ctor_def)
next
  show "range_table_ok (default_map bSymbols)" by (rule default_map_ok)
next
  assume "parse_format4 buf nLength' nOffset = Some d"
  then show "pairs_lt (d_pCodePairs d)" by (rule parse_format4_pairs_lt)
qed

theorem parsed_range_table_witness:
  "ParseCMAP bytewise_converter (Some shift_jis_table) 44 = Some (True, recoded_cmap) \<and>
   cr_mpStartGlyphs recoded_cmap = None \<and>
   range_table_ok (ImplFontCharMap_ctor recoded_cmap) \<and>
   ParseCMAP bytewise_converter (Some symbol_only_table) 32 = Some (True, symbol_fallback_cmap) \<and>
   cr_mpStartGlyphs symbol_fallback_cmap = None \<and>
   range_table_ok (ImplFontCharMap_ctor symbol_fallback_cmap) \<and>
   parse_format4 unordered_table 52 12 =
     Some \<lparr>d_pCodePairs = [0x50, 0x51, 0x41, 0x42], d_pStartGlyphs = [0x50, 0x41],
            d_aGlyphIdArray = [0]\<rparr> \<and>
   pairs_lt [0x50, 0x51, 0x41, 0x42]"
proof -
  have n1: "cr_mpStartGlyphs recoded_cmap = None" by (simp add: recoded_cmap_def)
  have n2: "cr_mpStartGlyphs symbol_fallback_cmap = None" by (simp add: symbol_fallback_cmap_def)
  have p: "parse_format4 unordered_table 52 12 =
     Some \<lparr>d_pCodePairs = [0x50, 0x51, 0x41, 0x42], d_pStartGlyphs = [0x50, 0x41],
            d_aGlyphIdArray = [0]\<rparr>"
    by (simp add: parse_eval unordered_table_def)
  from parsed_range_table [of bytewise_converter "Some shift_jis_table" 44 recoded_cmap]
    parse_shift_jis n1
  have 1: "range_table_ok (ImplFontCharMap_ctor recoded_cmap)" by blast
  from parsed_range_table [of bytewise_converter "Some symbol_only_table" 32 symbol_fallback_cmap]
    parse_symbol_only_table [of bytewise_converter] n2
  have 2: "range_table_ok (ImplFontCharMap_ctor symbol_fallback_cmap)" by blast
  from parsed_range_table [of _ _ _ _ _ unordered_table 52 12] p
  have 3: "pairs_lt [0x50, 0x51, 0x41, 0x42]" by fastforce
  from parse_shift_jis n1 1 parse_symbol_only_table [of bytewise_converter] n2 2 p 3
  show ?thesis by simp
qed

text \<open>
  C6 as stated fails: \<open>unordered_table\<close> parses, and boundary 1 of the result is
  \<open>0x51\<close>, above boundary 2, \<open>0x41\<close>.
\<close>

theorem parsed_range_table_counterexample:
  "ParseCMAP no_converter (Some unordered_table) 52 = Some (True, unordered_cmap) \<and>
   deref (cr_mpRangeCodes unordered_cmap) = [0x50, 0x51, 0x41, 0x42] \<and>
   \<not> deref (cr_mpRangeCodes unordered_cmap) ! 1 < deref (cr_mpRangeCodes unordered_cmap) ! 2 \<and>
   \<not> sorted_wrt (<) (deref (cr_mpRangeCodes unordered_cmap)) \<and>
   \<not> range_table_ok (ImplFontCharMap_ctor unordered_cmap)"
  using parse_unordered_table [of no_converter]
  by (simp add: unordered_cmap_def range_table_ok_def ImplFontCharMap_ctor_def)

end
